theory Spec2Isabelle
  imports Main "HOL-Library.Word"
begin

section \<open>The Vulkan query cache of yuzu: vk_query_cache.cpp\<close>

text \<open>
  The file under verification implements three classes: \<open>QueryPool\<close> (the query slot
  pool), \<open>VKQueryCache\<close> (one slot pool per query type) and \<open>HostCounter\<close> (the life of
  one query). Their collaborators (the scheduler, the logical device, the base class
  \<open>ResourcePool\<close> that issues tickets) live in other files: their answers are inputs of
  the model, and the calls made to them are returned as a list, in the order of the
  source.
\<close>

subsection \<open>Machine types\<close>

type_synonym u32 = "32 word"
type_synonym u64 = "64 word"

text \<open>
  A \<open>VkQueryPool\<close> is a native 64-bit handle. A slot is the pair
  \<open>std::pair<VkQueryPool, u32>\<close> the source passes around. Indices of type
  \<open>std::size_t\<close> are natural numbers: they index vectors, whose length stays far below
  \<open>2 ^ 64\<close>. The casts to \<open>u32\<close> are kept (\<open>of_nat\<close> truncates).
\<close>

type_synonym VkQueryPool = u64
type_synonym slot = "VkQueryPool \<times> u32"

datatype QueryType = SamplesPassed

datatype VkQueryType = VK_QUERY_TYPE_OCCLUSION

text \<open>\<open>QUERY_TARGETS[static_cast<std::size_t>(type)]\<close>, an array of one entry.\<close>

fun GetTarget :: "QueryType \<Rightarrow> VkQueryType" where
  "GetTarget SamplesPassed = VK_QUERY_TYPE_OCCLUSION"

text \<open>
  \<open>VkResult\<close> is a signed 32-bit enumeration of the Vulkan API; the two values the source
  names are \<open>VK_SUCCESS = 0\<close> and \<open>VK_ERROR_DEVICE_LOST = -4\<close>. Every other value is a
  status of its own.
\<close>

type_synonym VkResult = int

definition VK_SUCCESS :: VkResult where
  "VK_SUCCESS = 0"

definition VK_ERROR_DEVICE_LOST :: VkResult where
  "VK_ERROR_DEVICE_LOST = - 4"

subsection \<open>Errors\<close>

text \<open>
  \<open>AssertionFailed\<close> is the fatal \<open>ASSERT\<close> of the source. \<open>OutOfBounds\<close> is an access of a
  vector outside its length and \<open>DivisionByZero\<close> a division by a zero growth step: both
  are undefined behaviour in C++, kept apart from every defined result. \<open>Retrying\<close> is
  the value of the commit loop when the answers of the ticket pool given to the model
  are used up and the loop has not found a free slot yet.
\<close>

datatype error = AssertionFailed | OutOfBounds | DivisionByZero | Retrying

subsection \<open>The query slot pool\<close>

text \<open>
  A native container as the device created it: its handle and the fields of the
  \<open>VkQueryPoolCreateInfo\<close> that vary.
\<close>

record vk_QueryPool =
  handle :: VkQueryPool
  queryType :: VkQueryType
  queryCount :: u32

record QueryPool =
  usage :: "bool list"
  pools :: "vk_QueryPool list"
  type :: QueryType

text \<open>The constructor: no container and no used-bit.\<close>

definition QueryPool_init :: "QueryType \<Rightarrow> QueryPool" where
  "QueryPool_init ty = \<lparr>usage = [], pools = [], type = ty\<rparr>"

text \<open>\<open>std::vector<bool>::resize\<close>: cut to the new length, or filled up with \<open>false\<close>.\<close>

definition resize :: "bool list \<Rightarrow> nat \<Rightarrow> bool list" where
  "resize xs n = take n xs @ replicate (n - length xs) False"

text \<open>
  \<open>QueryPool::Allocate(begin, end)\<close>. The handle \<open>h\<close> is the one the device returns from
  \<open>CreateQueryPool\<close>. \<open>static_cast<u32>(end - begin)\<close> is a subtraction modulo \<open>2 ^ 64\<close>
  cut to 32 bits, which is the subtraction of the two 32-bit words.
\<close>

definition Allocate :: "VkQueryPool \<Rightarrow> nat \<Rightarrow> nat \<Rightarrow> QueryPool \<Rightarrow> QueryPool" where
  "Allocate h b e s =
     s\<lparr>usage := resize (usage s) e,
       pools := pools s @
         [\<lparr>handle = h, queryType = GetTarget (type s),
           queryCount = of_nat e - of_nat b\<rparr>]\<rparr>"

text \<open>
  \<open>std::find_if\<close> over a vector, as the position of the first element that satisfies the
  predicate; the length of the list stands for the end iterator.
\<close>

fun find_if :: "('a \<Rightarrow> bool) \<Rightarrow> 'a list \<Rightarrow> nat" where
  "find_if P [] = 0"
| "find_if P (x # xs) = (if P x then 0 else Suc (find_if P xs))"

text \<open>
  \<open>QueryPool::Reserve(query)\<close>. The constant \<open>GROW_STEP\<close> is declared in the header,
  which is not among the sources: it is the parameter \<open>G\<close> of every operation that uses
  it.

  Modelled from the spec: the macro \<open>ASSERT\<close> (common/assert.h) is not among the
  sources. The spec calls its failure a fatal programming-error condition that is not
  recoverable, so a failed assertion ends the call with \<open>AssertionFailed\<close> and the
  statements after it are not executed.
\<close>

definition Reserve :: "nat \<Rightarrow> slot \<Rightarrow> QueryPool \<Rightarrow> error + QueryPool" where
  "Reserve G query s =
     (let it = find_if (\<lambda>pool. fst query = handle pool) (pools s) in
      if it = length (pools s) then Inl AssertionFailed
      else
        let pool_index = it;
            i = pool_index * G + unat (snd query)
        in if length (usage s) \<le> i then Inl OutOfBounds
           else Inr (s\<lparr>usage := (usage s)[i := False]\<rparr>))"

subsection \<open>The ticket pool\<close>

text \<open>
  \<open>QueryPool\<close> derives from \<open>ResourcePool\<close>, whose \<open>CommitResource()\<close> issues the next
  ticket and, when it has to grow, calls the virtual \<open>Allocate(begin, end)\<close> before it
  returns. One answer of the ticket pool is therefore a ticket: the growth callback it
  made, if any, with the handle the device gave to the new container, and the index it
  issued.
\<close>

record ticket =
  growth :: "(nat \<times> nat \<times> VkQueryPool) option"
  issued :: nat

text \<open>
  Modelled from the spec: \<open>ResourcePool::CommitResource\<close> (vk_resource_pool.cpp) is not
  among the sources. The spec describes it as an external collaborator that issues
  ticket indices and triggers the growth callback; the model takes what it does in one
  call as the input \<open>t\<close> and applies the callback to the slot pool.
\<close>

definition CommitResource :: "ticket \<Rightarrow> QueryPool \<Rightarrow> nat \<times> QueryPool" where
  "CommitResource t s =
     (issued t,
      case growth t of
        None \<Rightarrow> s
      | Some (b, e, h) \<Rightarrow> Allocate h b e s)"

text \<open>
  The loop \<open>do { index = CommitResource(); } while (usage[index]);\<close> of
  \<open>QueryPool::Commit\<close>. Each round consumes one answer of the ticket pool; the result
  carries the answers left over for later calls.
\<close>

fun Commit_loop :: "ticket list \<Rightarrow> QueryPool \<Rightarrow> error + (nat \<times> QueryPool \<times> ticket list)" where
  "Commit_loop [] s = Inl Retrying"
| "Commit_loop (t # ts) s =
     (case CommitResource t s of
        (index, s') \<Rightarrow>
          if length (usage s') \<le> index then Inl OutOfBounds
          else if usage s' ! index then Commit_loop ts s'
          else Inr (index, s', ts))"

text \<open>\<open>QueryPool::Commit()\<close>.\<close>

definition Commit :: "nat \<Rightarrow> ticket list \<Rightarrow> QueryPool \<Rightarrow> error + (slot \<times> QueryPool \<times> ticket list)" where
  "Commit G ts s =
     (case Commit_loop ts s of
        Inl e \<Rightarrow> Inl e
      | Inr (index, s1, ts') \<Rightarrow>
          let s2 = s1\<lparr>usage := (usage s1)[index := True]\<rparr> in
          if G = 0 then Inl DivisionByZero
          else if length (pools s2) \<le> index div G then Inl OutOfBounds
          else Inr ((handle (pools s2 ! (index div G)), of_nat (index mod G)), s2, ts'))"

text \<open>
  \<open>n\<close> calls of \<open>Commit\<close> in a row on one pool, with no \<open>Reserve\<close> between them; the slots
  are returned in the order of the calls.
\<close>

fun Commits :: "nat \<Rightarrow> nat \<Rightarrow> ticket list \<Rightarrow> QueryPool \<Rightarrow> error + (slot list \<times> QueryPool \<times> ticket list)" where
  "Commits G 0 ts s = Inr ([], s, ts)"
| "Commits G (Suc n) ts s =
     (case Commits G n ts s of
        Inl e \<Rightarrow> Inl e
      | Inr (qs, s1, ts1) \<Rightarrow>
          (case Commit G ts1 s1 of
             Inl e \<Rightarrow> Inl e
           | Inr (q, s2, ts2) \<Rightarrow> Inr (qs @ [q], s2, ts2)))"

subsection \<open>The query cache\<close>

text \<open>\<open>query_pools\<close> is an array with one slot pool per query type.\<close>

record VKQueryCache =
  query_pools :: "QueryType \<Rightarrow> QueryPool"

definition AllocateQuery ::
  "nat \<Rightarrow> QueryType \<Rightarrow> ticket list \<Rightarrow> VKQueryCache \<Rightarrow> error + (slot \<times> VKQueryCache \<times> ticket list)" where
  "AllocateQuery G ty ts c =
     (case Commit G ts (query_pools c ty) of
        Inl e \<Rightarrow> Inl e
      | Inr (q, p, ts') \<Rightarrow> Inr (q, c\<lparr>query_pools := (query_pools c)(ty := p)\<rparr>, ts'))"

definition VKQueryCache_Reserve :: "nat \<Rightarrow> QueryType \<Rightarrow> slot \<Rightarrow> VKQueryCache \<Rightarrow> error + VKQueryCache" where
  "VKQueryCache_Reserve G ty query c =
     (case Reserve G query (query_pools c ty) of
        Inl e \<Rightarrow> Inl e
      | Inr p \<Rightarrow> Inr (c\<lparr>query_pools := (query_pools c)(ty := p)\<rparr>))"

subsection \<open>The host counter\<close>

text \<open>
  The commands a host counter records on the scheduler, and the calls it makes to its
  collaborators: the scheduler (\<open>Record\<close>, \<open>Flush\<close>), the device (\<open>GetQueryResults\<close>,
  \<open>ReportLoss\<close>) and the cache (\<open>AllocateQuery\<close>, \<open>Reserve\<close>).
\<close>

datatype command =
  ResetQueryPoolEXT VkQueryPool u32 u32
| BeginQuery VkQueryPool u32
| EndQuery VkQueryPool u32

datatype call =
  Scheduler_Record "command list"
| Scheduler_Flush
| Device_GetQueryResults VkQueryPool u32
| Device_ReportLoss
| Cache_AllocateQuery QueryType
| Cache_Reserve QueryType slot

record HostCounter =
  counter_type :: QueryType
  query :: slot
  tick :: u64

text \<open>
  The constructor: \<open>current_tick\<close> is what \<open>Scheduler().CurrentTick()\<close> answers. The shared
  pointer to the dependency belongs to the base class and plays no part in this file.
\<close>

definition HostCounter_new ::
  "nat \<Rightarrow> QueryType \<Rightarrow> u64 \<Rightarrow> ticket list \<Rightarrow> VKQueryCache \<Rightarrow>
     error + (HostCounter \<times> call list \<times> VKQueryCache \<times> ticket list)" where
  "HostCounter_new G ty current_tick ts c =
     (case AllocateQuery G ty ts c of
        Inl e \<Rightarrow> Inl e
      | Inr (q, c', ts') \<Rightarrow>
          Inr (\<lparr>counter_type = ty, query = q, tick = current_tick\<rparr>,
               [Cache_AllocateQuery ty,
                Scheduler_Record [ResetQueryPoolEXT (fst q) (snd q) 1, BeginQuery (fst q) (snd q)]],
               c', ts'))"

text \<open>The destructor.\<close>

definition HostCounter_delete ::
  "nat \<Rightarrow> HostCounter \<Rightarrow> VKQueryCache \<Rightarrow> call list \<times> (error + VKQueryCache)" where
  "HostCounter_delete G hc c =
     ([Cache_Reserve (counter_type hc) (query hc)],
      VKQueryCache_Reserve G (counter_type hc) (query hc) c)"

definition HostCounter_EndQuery :: "HostCounter \<Rightarrow> call list" where
  "HostCounter_EndQuery hc = [Scheduler_Record [EndQuery (fst (query hc)) (snd (query hc))]]"

text \<open>
  \<open>HostCounter::BlockingQuery()\<close>. \<open>current_tick\<close> is the answer of
  \<open>Scheduler().CurrentTick()\<close>; \<open>result\<close> and \<open>data\<close> are what the device answers to
  \<open>GetQueryResults\<close>. The exception \<open>vk::Exception(result)\<close> is the left summand.
\<close>

datatype exception = vk_Exception VkResult

definition BlockingQuery ::
  "HostCounter \<Rightarrow> u64 \<Rightarrow> VkResult \<Rightarrow> u64 \<Rightarrow> call list \<times> (exception + u64)" where
  "BlockingQuery hc current_tick result data =
     (let flush = (if current_tick \<le> tick hc then [Scheduler_Flush] else []);
          fetch = flush @ [Device_GetQueryResults (fst (query hc)) (snd (query hc))]
      in if result = VK_SUCCESS then (fetch, Inr data)
         else if result = VK_ERROR_DEVICE_LOST
         then (fetch @ [Device_ReportLoss], Inl (vk_Exception result))
         else (fetch, Inl (vk_Exception result)))"

text \<open>
  The life of one host counter: it is constructed, used any number of times, and
  destroyed. A use is a call of \<open>EndQuery\<close> or of \<open>BlockingQuery\<close>; both are \<open>const\<close> in
  the counter and leave the cache alone, and an exception of \<open>BlockingQuery\<close> goes to
  the caller, who still holds the counter.
\<close>

datatype use = Use_EndQuery | Use_BlockingQuery u64 VkResult u64

fun HostCounter_use :: "HostCounter \<Rightarrow> use \<Rightarrow> call list" where
  "HostCounter_use hc Use_EndQuery = HostCounter_EndQuery hc"
| "HostCounter_use hc (Use_BlockingQuery current_tick result data) =
     fst (BlockingQuery hc current_tick result data)"

definition HostCounter_life ::
  "nat \<Rightarrow> QueryType \<Rightarrow> u64 \<Rightarrow> ticket list \<Rightarrow> use list \<Rightarrow> VKQueryCache \<Rightarrow>
     error + (HostCounter \<times> call list \<times> (error + VKQueryCache))" where
  "HostCounter_life G ty current_tick ts uses c =
     (case HostCounter_new G ty current_tick ts c of
        Inl e \<Rightarrow> Inl e
      | Inr (hc, calls, c', ts') \<Rightarrow>
          (case HostCounter_delete G hc c' of
             (calls', r) \<Rightarrow>
               Inr (hc, calls @ concat (map (HostCounter_use hc) uses) @ calls', r)))"

subsection \<open>What the collaborators guarantee\<close>

text \<open>The pool after the growth callbacks of a sequence of tickets.\<close>

fun pool_after :: "ticket list \<Rightarrow> QueryPool \<Rightarrow> QueryPool" where
  "pool_after [] s = s"
| "pool_after (t # ts) s = pool_after ts (snd (CommitResource t s))"

text \<open>The handles the device gives to the containers created by a sequence of tickets.\<close>

fun new_handles :: "ticket list \<Rightarrow> VkQueryPool list" where
  "new_handles [] = []"
| "new_handles (t # ts) =
     (case growth t of
        None \<Rightarrow> new_handles ts
      | Some (b, e, h) \<Rightarrow> h # new_handles ts)"

text \<open>
  Modelled from the spec: how \<open>ResourcePool\<close> (vk_resource_pool.cpp, not among the
  sources) grows. It triggers the growth callback in fixed-size chunks, and \<open>begin\<close> is
  the capacity so far: with \<open>cap\<close> tickets, a growth callback is
  \<open>Allocate(cap, cap + G)\<close>.
\<close>

fun chunked :: "nat \<Rightarrow> nat \<Rightarrow> ticket list \<Rightarrow> bool" where
  "chunked G cap [] = True"
| "chunked G cap (t # ts) =
     (case growth t of
        None \<Rightarrow> chunked G cap ts
      | Some (b, e, h) \<Rightarrow> b = cap \<and> e = cap + G \<and> chunked G (cap + G) ts)"

text \<open>
  Modelled from the spec: how \<open>ResourcePool\<close> (not among the sources) goes through its
  tickets within one call of \<open>Commit\<close>. It issues its indices one after the other: an
  existing index only if it has not issued it in this call yet (\<open>vs\<close> are the indices
  issued so far), and otherwise it grows by one chunk and issues an index of the new
  chunk. Once every existing index has been visited, only the growth is left.
\<close>

fun orderly :: "nat \<Rightarrow> nat \<Rightarrow> nat list \<Rightarrow> ticket list \<Rightarrow> bool" where
  "orderly G cap vs [] = True"
| "orderly G cap vs (t # ts) =
     (case growth t of
        None \<Rightarrow> issued t < cap \<and> issued t \<notin> set vs \<and> orderly G cap (issued t # vs) ts
      | Some (b, e, h) \<Rightarrow> b = cap \<and> e = cap + G \<and> cap \<le> issued t \<and> issued t < cap + G)"

text \<open>
  The ticket pool within one call of \<open>Commit\<close>, with no more said than this: whenever
  every existing index has been visited in the call (\<open>vs\<close> are the indices issued so
  far), it grows by one chunk and issues an index of the new chunk. An index it issues
  without growing is an existing one, and it may be one it has issued before.
\<close>

fun visits_then_grows :: "nat \<Rightarrow> nat \<Rightarrow> nat list \<Rightarrow> ticket list \<Rightarrow> bool" where
  "visits_then_grows G cap vs [] = True"
| "visits_then_grows G cap vs (t # ts) =
     (case growth t of
        None \<Rightarrow>
          issued t < cap \<and> \<not> {..<cap} \<subseteq> set vs \<and> visits_then_grows G cap (issued t # vs) ts
      | Some (b, e, h) \<Rightarrow> b = cap \<and> e = cap + G \<and> cap \<le> issued t \<and> issued t < cap + G)"

text \<open>
  The existing indices that the ticket pool issues in one call of \<open>Commit\<close>, up to its
  first growth.
\<close>

definition visited :: "ticket list \<Rightarrow> nat list" where
  "visited ts = map issued (takeWhile (\<lambda>t. growth t = None) ts)"

text \<open>
  Modelled from the spec: when \<open>ResourcePool\<close> (not among the sources) grows. It
  triggers the growth callback only when its capacity is exhausted: a growth comes
  only after every existing index has been issued (\<open>vs\<close> are the indices issued since
  the pool was created); it adds one chunk and, issuing increasing indices, issues the
  first index of the chunk. Between growths it may issue any index, also one it has
  issued before.
\<close>

fun exhaustive :: "nat \<Rightarrow> nat \<Rightarrow> nat list \<Rightarrow> ticket list \<Rightarrow> bool" where
  "exhaustive G cap vs [] = True"
| "exhaustive G cap vs (t # ts) =
     (case growth t of
        None \<Rightarrow> exhaustive G cap (issued t # vs) ts
      | Some (b, e, h) \<Rightarrow>
          b = cap \<and> e = cap + G \<and> issued t = cap \<and> {..<cap} \<subseteq> set vs \<and>
          exhaustive G (cap + G) (issued t # vs) ts)"

subsection \<open>Invariants of the slot pool\<close>

text \<open>The flat index \<open>i\<close> as a slot: container \<open>i / G\<close>, offset \<open>i % G\<close>.\<close>

definition slot_of :: "nat \<Rightarrow> QueryPool \<Rightarrow> nat \<Rightarrow> slot" where
  "slot_of G s i = (handle (pools s ! (i div G)), of_nat (i mod G))"

text \<open>The sum of the capacities of the containers.\<close>

definition capacity :: "QueryPool \<Rightarrow> nat" where
  "capacity s = sum_list (map (\<lambda>p. unat (queryCount p)) (pools s))"

text \<open>
  The bit sequence is as long as the capacities of the containers together, and every
  container has the capacity of one growth step.
\<close>

definition invariant :: "nat \<Rightarrow> QueryPool \<Rightarrow> bool" where
  "invariant G s \<longleftrightarrow>
     length (usage s) = capacity s \<and> (\<forall>p\<in>set (pools s). unat (queryCount p) = G)"

text \<open>The calls of \<open>Reserve\<close> among the calls to the collaborators.\<close>

fun is_Reserve :: "call \<Rightarrow> bool" where
  "is_Reserve (Cache_Reserve ty q) = True"
| "is_Reserve c = False"

subsection \<open>Example values\<close>

text \<open>A pool of two containers of two slots each, with slots 0 and 2 in use.\<close>

definition example_pool :: QueryPool where
  "example_pool =
     \<lparr>usage = [True, False, True, False],
      pools = [\<lparr>handle = 10, queryType = VK_QUERY_TYPE_OCCLUSION, queryCount = 2\<rparr>,
               \<lparr>handle = 11, queryType = VK_QUERY_TYPE_OCCLUSION, queryCount = 2\<rparr>],
      type = SamplesPassed\<rparr>"

text \<open>Three tickets: two for slots in use, and one for a free slot.\<close>

definition example_tickets :: "ticket list" where
  "example_tickets =
     [\<lparr>growth = None, issued = 0\<rparr>, \<lparr>growth = None, issued = 2\<rparr>,
      \<lparr>growth = None, issued = 3\<rparr>]"

text \<open>
  The answers of a ticket pool to three calls of \<open>Commit\<close> on a new pool with growth
  step 2: it grows, issues 0 and 1, comes back to 0 and 1, and grows again.
\<close>

definition growing_tickets :: "ticket list" where
  "growing_tickets =
     [\<lparr>growth = Some (0, 2, 10), issued = 0\<rparr>, \<lparr>growth = None, issued = 1\<rparr>,
      \<lparr>growth = None, issued = 0\<rparr>, \<lparr>growth = None, issued = 1\<rparr>,
      \<lparr>growth = Some (2, 4, 11), issued = 2\<rparr>]"

text \<open>
  A pool with every slot in use, and a ticket pool that visits every index once and
  then grows.
\<close>

definition full_pool :: QueryPool where
  "full_pool = example_pool\<lparr>usage := [True, True, True, True]\<rparr>"

definition orderly_tickets :: "ticket list" where
  "orderly_tickets =
     [\<lparr>growth = None, issued = 2\<rparr>, \<lparr>growth = None, issued = 3\<rparr>,
      \<lparr>growth = None, issued = 0\<rparr>, \<lparr>growth = None, issued = 1\<rparr>,
      \<lparr>growth = Some (4, 6, 12), issued = 4\<rparr>]"

text \<open>
  A cache over the example pool, and a counter that is ended and then read on a lost
  device.
\<close>

definition example_cache :: VKQueryCache where
  "example_cache = \<lparr>query_pools = (\<lambda>ty. example_pool)\<rparr>"

definition example_uses :: "use list" where
  "example_uses = [Use_EndQuery, Use_BlockingQuery 6 (- 4) 0]"

text \<open>
  A pool of one container with slot 0 in use and slot 1 free, and a ticket for slot 0.
\<close>

definition stuck_pool :: QueryPool where
  "stuck_pool =
     \<lparr>usage = [True, False],
      pools = [\<lparr>handle = 10, queryType = VK_QUERY_TYPE_OCCLUSION, queryCount = 2\<rparr>],
      type = SamplesPassed\<rparr>"

definition stuck_ticket :: ticket where
  "stuck_ticket = \<lparr>growth = None, issued = 0\<rparr>"

section \<open>Properties\<close>

subsection \<open>Blocking retrieval of a result\<close>

text \<open>
  Claim C3. \<open>BlockingQuery\<close> calls \<open>Flush\<close> on the scheduler if and only if the tick
  recorded in the counter is at least the current tick of the scheduler. The calls it
  makes are: the flush, when there is one, then the fetch of the result, then calls
  among which there is no flush. So with a recorded tick below the current tick, no
  flush is made at all.
\<close>

theorem BlockingQuery_flush_iff:
  "(Scheduler_Flush \<in> set (fst (BlockingQuery hc current_tick result data)))
     = (tick hc \<ge> current_tick)
   \<and> (\<exists>rest. fst (BlockingQuery hc current_tick result data) =
         (if tick hc \<ge> current_tick then [Scheduler_Flush] else []) @
         Device_GetQueryResults (fst (query hc)) (snd (query hc)) # rest
         \<and> Scheduler_Flush \<notin> set rest)"
  by (simp add: BlockingQuery_def Let_def)

theorem BlockingQuery_flush_iff_witness:
  "Scheduler_Flush \<in> set (fst (BlockingQuery
      \<lparr>counter_type = SamplesPassed, query = (7, 3), tick = 5\<rparr> 5 VK_SUCCESS 9))
   \<and> Scheduler_Flush \<notin> set (fst (BlockingQuery
      \<lparr>counter_type = SamplesPassed, query = (7, 3), tick = 5\<rparr> 6 VK_SUCCESS 9))"
  using BlockingQuery_flush_iff [of "\<lparr>counter_type = SamplesPassed, query = (7, 3), tick = 5\<rparr>" 5 VK_SUCCESS 9]
    BlockingQuery_flush_iff [of "\<lparr>counter_type = SamplesPassed, query = (7, 3), tick = 5\<rparr>" 6 VK_SUCCESS 9]
  by simp

text \<open>
  Claim C4. Whatever the device answers to the fetch: on success the fetched value is
  returned; on a lost device the loss is reported, as the last call and right after
  the fetch, and the exception carrying the status is thrown; on every other status
  the exception carrying that status is thrown and no loss is reported. The fetch is
  made exactly once, and a value is returned only on success.
\<close>

theorem BlockingQuery_result:
  assumes "BlockingQuery hc current_tick result data = (calls, r)"
  shows "(result = VK_SUCCESS \<longrightarrow> r = Inr data \<and> Device_ReportLoss \<notin> set calls)
    \<and> (result = VK_ERROR_DEVICE_LOST \<longrightarrow>
          r = Inl (vk_Exception VK_ERROR_DEVICE_LOST) \<and>
          (\<exists>before. calls = before @
             [Device_GetQueryResults (fst (query hc)) (snd (query hc)), Device_ReportLoss]))
    \<and> (result \<noteq> VK_SUCCESS \<and> result \<noteq> VK_ERROR_DEVICE_LOST \<longrightarrow>
          r = Inl (vk_Exception result) \<and> Device_ReportLoss \<notin> set calls)
    \<and> count_list calls (Device_GetQueryResults (fst (query hc)) (snd (query hc))) = 1
    \<and> ((\<exists>v. r = Inr v) = (result = VK_SUCCESS))"
  using assms
  by (auto simp: BlockingQuery_def Let_def VK_SUCCESS_def VK_ERROR_DEVICE_LOST_def
      split: if_splits)

theorem BlockingQuery_result_witness:
  "BlockingQuery \<lparr>counter_type = SamplesPassed, query = (7, 3), tick = 5\<rparr> 6 (- 4) 0
     = ([Device_GetQueryResults 7 3, Device_ReportLoss], Inl (vk_Exception (- 4)))
   \<and> BlockingQuery \<lparr>counter_type = SamplesPassed, query = (7, 3), tick = 5\<rparr> 6 0 42
     = ([Device_GetQueryResults 7 3], Inr 42)
   \<and> BlockingQuery \<lparr>counter_type = SamplesPassed, query = (7, 3), tick = 5\<rparr> 5 (- 1) 0
     = ([Scheduler_Flush, Device_GetQueryResults 7 3], Inl (vk_Exception (- 1)))
   \<and> count_list [Device_GetQueryResults 7 3, Device_ReportLoss] (Device_GetQueryResults 7 3)
     = Suc 0"
  using BlockingQuery_result [of "\<lparr>counter_type = SamplesPassed, query = (7, 3), tick = 5\<rparr>"
      6 "- 4" 0 "[Device_GetQueryResults 7 3, Device_ReportLoss]" "Inl (vk_Exception (- 4))"]
  by (simp add: BlockingQuery_def VK_SUCCESS_def VK_ERROR_DEVICE_LOST_def)

subsection \<open>Releasing a slot\<close>

text \<open>What \<open>find_if\<close> returns: the first position that satisfies the predicate.\<close>

lemma find_if_le: "find_if P xs \<le> length xs"
  by (induction xs) auto

lemma find_if_end: "(find_if P xs = length xs) = (\<forall>x\<in>set xs. \<not> P x)"
proof (induction xs)
  case Nil
  show ?case by simp
next
  case (Cons x xs)
  have "find_if P xs \<le> length xs" by (rule find_if_le)
  with Cons show ?case by auto
qed

lemma find_if_found: "find_if P xs < length xs \<Longrightarrow> P (xs ! find_if P xs)"
  by (induction xs) (auto split: if_splits)

lemma find_if_first: "j < find_if P xs \<Longrightarrow> \<not> P (xs ! j)"
proof (induction xs arbitrary: j)
  case Nil
  then show ?case by simp
next
  case (Cons x xs)
  then show ?case by (cases j) (auto split: if_splits)
qed

lemma find_if_eqI:
  assumes "k < length xs" "P (xs ! k)" "\<forall>j<k. \<not> P (xs ! j)"
  shows "find_if P xs = k"
proof -
  have "\<not> k < find_if P xs" using find_if_first [of k P xs] assms(2) by blast
  then have le: "find_if P xs \<le> k" by simp
  then have "find_if P xs < length xs" using assms(1) by simp
  then have "P (xs ! find_if P xs)" by (rule find_if_found)
  then have "\<not> find_if P xs < k" using assms(3) by blast
  with le show ?thesis by simp
qed

lemma find_if_distinct:
  assumes "distinct (map f xs)" "k < length xs"
  shows "find_if (\<lambda>x. f (xs ! k) = f x) xs = k"
proof (rule find_if_eqI)
  show "k < length xs" by fact
  show "f (xs ! k) = f (xs ! k)" by simp
  show "\<forall>j<k. f (xs ! k) \<noteq> f (xs ! j)"
  proof (intro allI impI)
    fix j assume "j < k"
    then have "j < length (map f xs)" "k < length (map f xs)" "j \<noteq> k" using assms(2) by simp_all
    then have "map f xs ! k \<noteq> map f xs ! j"
      using assms(1) nth_eq_iff_index_eq [of "map f xs" k j] by simp
    then show "f (xs ! k) \<noteq> f (xs ! j)" using \<open>j < k\<close> assms(2) by simp
  qed
qed

text \<open>The two outcomes of the search in \<open>Reserve\<close>.\<close>

lemma Reserve_unowned:
  "fst q \<notin> handle ` set (pools s) \<Longrightarrow> Reserve G q s = Inl AssertionFailed"
proof -
  assume "fst q \<notin> handle ` set (pools s)"
  then have "\<forall>p\<in>set (pools s). \<not> fst q = handle p" by auto
  then have "find_if (\<lambda>pool. fst q = handle pool) (pools s) = length (pools s)"
    using find_if_end [of "\<lambda>pool. fst q = handle pool" "pools s"] by blast
  then show ?thesis by (simp add: Reserve_def)
qed

lemma Reserve_owned_position:
  assumes "fst q \<in> handle ` set (pools s)"
  shows "\<exists>k<length (pools s). find_if (\<lambda>pool. fst q = handle pool) (pools s) = k
           \<and> handle (pools s ! k) = fst q \<and> (\<forall>j<k. handle (pools s ! j) \<noteq> fst q)"
proof -
  let ?P = "\<lambda>pool. fst q = handle pool"
  have "\<not> (\<forall>p\<in>set (pools s). \<not> ?P p)" using assms by auto
  then have "find_if ?P (pools s) \<noteq> length (pools s)"
    using find_if_end [of ?P "pools s"] by blast
  then have lt: "find_if ?P (pools s) < length (pools s)"
    using find_if_le [of ?P "pools s"] by simp
  have "?P (pools s ! find_if ?P (pools s))" using lt by (rule find_if_found)
  moreover have "\<forall>j<find_if ?P (pools s). handle (pools s ! j) \<noteq> fst q"
    using find_if_first [of _ ?P "pools s"] by metis
  ultimately show ?thesis using lt by auto
qed

lemma Reserve_at:
  assumes "find_if (\<lambda>pool. fst q = handle pool) (pools s) = k" "k < length (pools s)"
  shows "Reserve G q s =
     (if k * G + unat (snd q) < length (usage s)
      then Inr (s\<lparr>usage := (usage s)[k * G + unat (snd q) := False]\<rparr>)
      else Inl OutOfBounds)"
  using assms by (simp add: Reserve_def Let_def)

text \<open>
  Claim C6. A call of \<open>Reserve\<close> with a handle that no container of the pool has ends
  in the failed assertion: no pool state results, so no used-bit is cleared. With a
  handle that some container has, the position \<open>k\<close> of the first such container is
  taken, and the used-bit at the flat index \<open>k * G + offset\<close> is cleared, the rest of
  the pool staying as it is. (The source does not check the offset: a flat index at or
  beyond the length of the bit sequence is an access out of bounds.)
\<close>

theorem Reserve_owner:
  "(fst q \<notin> handle ` set (pools s) \<longrightarrow> Reserve G q s = Inl AssertionFailed)
   \<and> (fst q \<in> handle ` set (pools s) \<longrightarrow>
        (\<exists>k<length (pools s).
           handle (pools s ! k) = fst q \<and> (\<forall>j<k. handle (pools s ! j) \<noteq> fst q)
           \<and> (k * G + unat (snd q) < length (usage s) \<longrightarrow>
                (\<exists>s'. Reserve G q s = Inr s' \<and> pools s' = pools s \<and> type s' = type s
                   \<and> usage s' = (usage s)[k * G + unat (snd q) := False]
                   \<and> \<not> usage s' ! (k * G + unat (snd q))))
           \<and> (length (usage s) \<le> k * G + unat (snd q) \<longrightarrow> Reserve G q s = Inl OutOfBounds)))"
proof (intro conjI impI)
  assume "fst q \<notin> handle ` set (pools s)"
  then show "Reserve G q s = Inl AssertionFailed" by (rule Reserve_unowned)
next
  assume "fst q \<in> handle ` set (pools s)"
  then obtain k where k: "k < length (pools s)"
      "find_if (\<lambda>pool. fst q = handle pool) (pools s) = k"
      "handle (pools s ! k) = fst q" "\<forall>j<k. handle (pools s ! j) \<noteq> fst q"
    using Reserve_owned_position by blast
  have "Reserve G q s =
     (if k * G + unat (snd q) < length (usage s)
      then Inr (s\<lparr>usage := (usage s)[k * G + unat (snd q) := False]\<rparr>)
      else Inl OutOfBounds)"
    using k(2) k(1) by (rule Reserve_at)
  then show "\<exists>k<length (pools s).
           handle (pools s ! k) = fst q \<and> (\<forall>j<k. handle (pools s ! j) \<noteq> fst q)
           \<and> (k * G + unat (snd q) < length (usage s) \<longrightarrow>
                (\<exists>s'. Reserve G q s = Inr s' \<and> pools s' = pools s \<and> type s' = type s
                   \<and> usage s' = (usage s)[k * G + unat (snd q) := False]
                   \<and> \<not> usage s' ! (k * G + unat (snd q))))
           \<and> (length (usage s) \<le> k * G + unat (snd q) \<longrightarrow> Reserve G q s = Inl OutOfBounds)"
    using k(1,3,4) by (intro exI [of _ k]) simp
qed

theorem Reserve_owner_witness:
  "Reserve 2 (12, 0) example_pool = Inl AssertionFailed
   \<and> Reserve 2 (11, 0) example_pool = Inr (example_pool\<lparr>usage := [True, False, False, False]\<rparr>)
   \<and> Reserve 2 (11, 2) example_pool = Inl OutOfBounds"
  using Reserve_owner [of "(12, 0)" example_pool 2] Reserve_owner [of "(11, 0)" example_pool 2]
  by (simp add: Reserve_def example_pool_def)


text \<open>
  Claim C10. \<open>Reserve\<close> is idempotent on the slots of owned containers: a second call
  on the same slot succeeds and changes nothing, and more generally a call on a slot
  whose used-bit is already clear succeeds and returns the pool unchanged.
\<close>

theorem Reserve_idempotent:
  "(Reserve G q s = Inr s1 \<longrightarrow> Reserve G q s1 = Inr s1)
   \<and> (\<forall>k. k < length (pools s) \<and> handle (pools s ! k) = fst q
          \<and> (\<forall>j<k. handle (pools s ! j) \<noteq> fst q)
          \<and> k * G + unat (snd q) < length (usage s)
          \<and> \<not> usage s ! (k * G + unat (snd q))
        \<longrightarrow> Reserve G q s = Inr s)"
proof (intro conjI impI allI)
  assume r: "Reserve G q s = Inr s1"
  let ?k = "find_if (\<lambda>pool. fst q = handle pool) (pools s)"
  let ?i = "?k * G + unat (snd q)"
  from r have k: "?k \<noteq> length (pools s)" and i: "?i < length (usage s)"
    and s1: "s1 = s\<lparr>usage := (usage s)[?i := False]\<rparr>"
    by (auto simp: Reserve_def Let_def split: if_splits)
  show "Reserve G q s1 = Inr s1"
    using k i by (simp add: Reserve_def Let_def s1)
next
  fix k
  assume a: "k < length (pools s) \<and> handle (pools s ! k) = fst q
          \<and> (\<forall>j<k. handle (pools s ! j) \<noteq> fst q)
          \<and> k * G + unat (snd q) < length (usage s)
          \<and> \<not> usage s ! (k * G + unat (snd q))"
  then have "find_if (\<lambda>pool. fst q = handle pool) (pools s) = k"
    by (intro find_if_eqI) auto
  then have "Reserve G q s = Inr (s\<lparr>usage := (usage s)[k * G + unat (snd q) := False]\<rparr>)"
    using a by (simp add: Reserve_at)
  moreover have "(usage s)[k * G + unat (snd q) := False] = usage s"
    using a list_update_id [of "usage s" "k * G + unat (snd q)"] by simp
  ultimately show "Reserve G q s = Inr s" by simp
qed

theorem Reserve_idempotent_witness:
  "Reserve 2 (11, 0) example_pool = Inr (example_pool\<lparr>usage := [True, False, False, False]\<rparr>)
   \<and> Reserve 2 (11, 0) (example_pool\<lparr>usage := [True, False, False, False]\<rparr>)
       = Inr (example_pool\<lparr>usage := [True, False, False, False]\<rparr>)
   \<and> Reserve 2 (10, 1) example_pool = Inr example_pool"
  using Reserve_idempotent [of 2 "(11, 0)" example_pool "example_pool\<lparr>usage := [True, False, False, False]\<rparr>"]
    Reserve_idempotent [of 2 "(10, 1)" example_pool example_pool]
  by (simp add: Reserve_def example_pool_def)

subsection \<open>Committing a slot\<close>

text \<open>The growth callback.\<close>

lemma usage_Allocate:
  "length (usage s) \<le> e \<Longrightarrow> usage (Allocate h b e s) = usage s @ replicate (e - length (usage s)) False"
  by (simp add: Allocate_def resize_def)

lemma pools_Allocate:
  "pools (Allocate h b e s) =
     pools s @ [\<lparr>handle = h, queryType = GetTarget (type s), queryCount = of_nat e - of_nat b\<rparr>]"
  by (simp add: Allocate_def)

lemma type_Allocate: "type (Allocate h b e s) = type s"
  by (simp add: Allocate_def)

lemma fst_CommitResource: "fst (CommitResource t s) = issued t"
  by (simp add: CommitResource_def)

text \<open>The growth callbacks of a sequence of tickets.\<close>

lemma pool_after_append: "pool_after (xs @ ys) s = pool_after ys (pool_after xs s)"
  by (induction xs arbitrary: s) simp_all

lemma pool_after_take_Suc:
  "k < length ts \<Longrightarrow>
     pool_after (take (Suc k) ts) s = snd (CommitResource (ts ! k) (pool_after (take k ts) s))"
  by (simp add: take_Suc_conv_app_nth pool_after_append)

text \<open>One round of the loop, and what a finished loop has done.\<close>

lemma Commit_loop_Cons:
  "Commit_loop (t # ts) s =
     (if length (usage (snd (CommitResource t s))) \<le> issued t then Inl OutOfBounds
      else if usage (snd (CommitResource t s)) ! issued t
      then Commit_loop ts (snd (CommitResource t s))
      else Inr (issued t, snd (CommitResource t s), ts))"
  by (simp add: CommitResource_def)

lemma Commit_loop_Inr:
  "Commit_loop ts s = Inr (i, s1, ts') \<Longrightarrow>
     \<exists>k<length ts. ts' = drop (Suc k) ts \<and> i = issued (ts ! k)
        \<and> s1 = pool_after (take (Suc k) ts) s
        \<and> i < length (usage s1) \<and> \<not> usage s1 ! i
        \<and> (\<forall>j<k. issued (ts ! j) < length (usage (pool_after (take (Suc j) ts) s))
                  \<and> usage (pool_after (take (Suc j) ts) s) ! issued (ts ! j))"
proof (induction ts arbitrary: s)
  case Nil
  then show ?case by simp
next
  case (Cons t ts)
  let ?s = "snd (CommitResource t s)"
  note cr = Commit_loop_Cons [of t ts s]
  show ?case
  proof (cases "usage ?s ! issued t")
    case True
    with Cons.prems have inr: "issued t < length (usage ?s)" and rec: "Commit_loop ts ?s = Inr (i, s1, ts')"
      by (auto simp only: cr split: if_splits)
    from Cons.IH [OF rec] obtain k where k: "k < length ts" "ts' = drop (Suc k) ts"
      "i = issued (ts ! k)" "s1 = pool_after (take (Suc k) ts) ?s"
      "i < length (usage s1)" "\<not> usage s1 ! i"
      "\<forall>j<k. issued (ts ! j) < length (usage (pool_after (take (Suc j) ts) ?s))
                  \<and> usage (pool_after (take (Suc j) ts) ?s) ! issued (ts ! j)"
      by blast
    have "\<forall>j<Suc k. issued ((t # ts) ! j) < length (usage (pool_after (take (Suc j) (t # ts)) s))
                  \<and> usage (pool_after (take (Suc j) (t # ts)) s) ! issued ((t # ts) ! j)"
    proof (intro allI impI)
      fix j assume "j < Suc k"
      then show "issued ((t # ts) ! j) < length (usage (pool_after (take (Suc j) (t # ts)) s))
                  \<and> usage (pool_after (take (Suc j) (t # ts)) s) ! issued ((t # ts) ! j)"
        using True inr k(7) by (cases j) simp_all
    qed
    then show ?thesis using k(1-6) by (intro exI [of _ "Suc k"]) simp
  next
    case False
    with Cons.prems have "issued t < length (usage ?s)" "i = issued t" "s1 = ?s" "ts' = ts"
      by (auto simp only: cr split: if_splits)
    then show ?thesis using False by (intro exI [of _ 0]) simp
  qed
qed

lemma Commit_Inr:
  "Commit G ts s = Inr (q, s', ts') \<Longrightarrow>
     \<exists>i s1. Commit_loop ts s = Inr (i, s1, ts') \<and> 0 < G \<and> i div G < length (pools s1)
        \<and> s' = s1\<lparr>usage := (usage s1)[i := True]\<rparr>
        \<and> q = (handle (pools s1 ! (i div G)), of_nat (i mod G))"
  by (auto simp: Commit_def Let_def split: sum.splits if_splits)

text \<open>A ticket pool that grows in chunks only appends free bits and containers.\<close>

lemma chunked_append:
  "chunked G cap (xs @ ys) =
     (chunked G cap xs \<and> chunked G (cap + G * length (new_handles xs)) ys)"
  by (induction xs arbitrary: cap) (auto split: option.splits simp: algebra_simps)

lemma usage_pool_after:
  "chunked G (length (usage s)) xs \<Longrightarrow>
     usage (pool_after xs s) = usage s @ replicate (G * length (new_handles xs)) False"
proof (induction xs arbitrary: s)
  case Nil
  then show ?case by simp
next
  case (Cons t xs)
  show ?case
  proof (cases "growth t")
    case None
    with Cons show ?thesis by (simp add: CommitResource_def)
  next
    case (Some g)
    obtain b e h where g: "g = (b, e, h)" by (cases g)
    with Some Cons.prems have be: "b = length (usage s)" "e = length (usage s) + G"
      and ch: "chunked G (length (usage s) + G) xs" by simp_all
    have u: "usage (Allocate h b e s) = usage s @ replicate G False"
      using be by (simp add: usage_Allocate)
    then have "chunked G (length (usage (Allocate h b e s))) xs" using ch by simp
    from Cons.IH [OF this] show ?thesis
      using Some g u by (simp add: CommitResource_def replicate_add [symmetric])
  qed
qed

lemma pools_pool_after:
  "\<exists>cs. pools (pool_after xs s) = pools s @ cs \<and> map handle cs = new_handles xs"
proof (induction xs arbitrary: s)
  case Nil
  then show ?case by simp
next
  case (Cons t xs)
  show ?case
  proof (cases "growth t")
    case None
    with Cons show ?thesis by (simp add: CommitResource_def)
  next
    case (Some g)
    obtain b e h where g: "g = (b, e, h)" by (cases g)
    from Cons [of "Allocate h b e s"] obtain cs where
      "pools (pool_after xs (Allocate h b e s)) = pools (Allocate h b e s) @ cs"
      "map handle cs = new_handles xs" by blast
    then show ?thesis using Some g
      by (simp add: CommitResource_def pools_Allocate)
  qed
qed

lemma type_pool_after: "type (pool_after xs s) = type s"
  by (induction xs arbitrary: s) (auto simp: CommitResource_def type_Allocate split: option.splits)

lemma new_handles_append: "new_handles (xs @ ys) = new_handles xs @ new_handles ys"
  by (induction xs) (auto split: option.splits)


lemma Commit_details:
  assumes "Commit G ts s = Inr (q, s', ts')"
  shows "\<exists>k<length ts. \<exists>s1.
           s1 = pool_after (take (Suc k) ts) s \<and> ts' = drop (Suc k) ts
         \<and> (\<forall>j<k. issued (ts ! j) < length (usage (pool_after (take (Suc j) ts) s))
                  \<and> usage (pool_after (take (Suc j) ts) s) ! issued (ts ! j))
         \<and> issued (ts ! k) < length (usage s1) \<and> \<not> usage s1 ! issued (ts ! k)
         \<and> s' = s1\<lparr>usage := (usage s1)[issued (ts ! k) := True]\<rparr>
         \<and> 0 < G \<and> issued (ts ! k) div G < length (pools s1)
         \<and> q = (handle (pools s1 ! (issued (ts ! k) div G)), of_nat (issued (ts ! k) mod G))
         \<and> (chunked G (length (usage s)) ts \<longrightarrow> (\<exists>n. usage s1 = usage s @ replicate n False))"
proof -
  from Commit_Inr [OF assms] obtain i s1 where c: "Commit_loop ts s = Inr (i, s1, ts')"
    "0 < G" "i div G < length (pools s1)" "s' = s1\<lparr>usage := (usage s1)[i := True]\<rparr>"
    "q = (handle (pools s1 ! (i div G)), of_nat (i mod G))" by blast
  from Commit_loop_Inr [OF c(1)] obtain k where k: "k < length ts" "ts' = drop (Suc k) ts"
    "i = issued (ts ! k)" "s1 = pool_after (take (Suc k) ts) s"
    "i < length (usage s1)" "\<not> usage s1 ! i"
    "\<forall>j<k. issued (ts ! j) < length (usage (pool_after (take (Suc j) ts) s))
                  \<and> usage (pool_after (take (Suc j) ts) s) ! issued (ts ! j)"
    by blast
  have "chunked G (length (usage s)) ts \<longrightarrow> (\<exists>n. usage s1 = usage s @ replicate n False)"
  proof
    assume "chunked G (length (usage s)) ts"
    then have "chunked G (length (usage s)) (take (Suc k) ts @ drop (Suc k) ts)" by simp
    then have "chunked G (length (usage s)) (take (Suc k) ts)"
      by (simp only: chunked_append)
    then show "\<exists>n. usage s1 = usage s @ replicate n False"
      unfolding k(4) by (blast dest: usage_pool_after)
  qed
  with c k show ?thesis by blast
qed

lemma Commit_after_Reserve:
  assumes r: "Reserve G q0 s0 = Inr s"
    and k: "k < length (pools s0)" "handle (pools s0 ! k) = fst q0"
      "\<forall>j<k. handle (pools s0 ! j) \<noteq> fst q0"
    and off: "unat (snd q0) < G"
  shows "Commit G (\<lparr>growth = None, issued = k * G + unat (snd q0)\<rparr> # rest) s =
     Inr (q0, s\<lparr>usage := (usage s)[k * G + unat (snd q0) := True]\<rparr>, rest)"
proof -
  let ?i = "k * G + unat (snd q0)"
  have "find_if (\<lambda>pool. fst q0 = handle pool) (pools s0) = k"
    using k by (intro find_if_eqI) auto
  then have "Reserve G q0 s0 =
     (if ?i < length (usage s0) then Inr (s0\<lparr>usage := (usage s0)[?i := False]\<rparr>)
      else Inl OutOfBounds)"
    using k(1) by (rule Reserve_at)
  with r have i: "?i < length (usage s0)" and s: "s = s0\<lparr>usage := (usage s0)[?i := False]\<rparr>"
    by (auto split: if_splits)
  have loop: "Commit_loop (\<lparr>growth = None, issued = ?i\<rparr> # rest) s = Inr (?i, s, rest)"
    using i by (simp add: CommitResource_def s)
  have d: "?i div G = k" and m: "?i mod G = unat (snd q0)" using off by simp_all
  have g: "G \<noteq> 0" using off by simp
  have m2: "unat (snd q0) mod G = unat (snd q0)" using off by simp
  have p: "pools s = pools s0" by (simp add: s)
  have w: "(handle (pools s0 ! k), snd q0) = q0"
    using k(2) by (simp add: prod_eq_iff)
  show ?thesis
    unfolding Commit_def loop
    using g k(1) by (simp add: d m m2 p w)
qed

subsection \<open>Commits in a row\<close>

text \<open>Different flat indices are different slots, when the handles of the containers differ.\<close>

lemma of_nat_u32_inj:
  "a < 2 ^ 32 \<Longrightarrow> b < 2 ^ 32 \<Longrightarrow> (of_nat a :: u32) = of_nat b \<Longrightarrow> a = b"
proof -
  assume a: "a < 2 ^ 32" and b: "b < 2 ^ 32" and e: "(of_nat a :: u32) = of_nat b"
  from e have "unat (of_nat a :: u32) = unat (of_nat b :: u32)" by simp
  then show "a = b" using a b by (simp add: unat_of_nat)
qed

lemma slot_of_inj:
  assumes d: "distinct (map handle (pools s))" and g: "0 < G" "G \<le> 2 ^ 32"
    and i: "i div G < length (pools s)" and j: "j div G < length (pools s)"
    and e: "slot_of G s i = slot_of G s j"
  shows "i = j"
proof -
  from e have h: "handle (pools s ! (i div G)) = handle (pools s ! (j div G))"
    and o: "(of_nat (i mod G) :: u32) = of_nat (j mod G)"
    by (simp_all add: slot_of_def)
  have "map handle (pools s) ! (i div G) = map handle (pools s) ! (j div G)"
    using h i j by simp
  then have dv: "i div G = j div G"
    using d i j nth_eq_iff_index_eq [of "map handle (pools s)" "i div G" "j div G"] by simp
  have "i mod G < 2 ^ 32" "j mod G < 2 ^ 32"
    using g mod_less_divisor [of G i] mod_less_divisor [of G j] by linarith+
  then have md: "i mod G = j mod G" using o by (rule of_nat_u32_inj)
  have "i = G * (i div G) + i mod G" by simp
  also have "\<dots> = G * (j div G) + j mod G" by (simp only: dv md)
  also have "\<dots> = j" by simp
  finally show ?thesis .
qed


text \<open>One call of \<open>Commit\<close> under a ticket pool that grows in chunks.\<close>

lemma pools_pool_after_chunked:
  "chunked G (length (usage s)) xs \<Longrightarrow>
     \<exists>cs. pools (pool_after xs s) = pools s @ cs \<and> map handle cs = new_handles xs
        \<and> (\<forall>c\<in>set cs. queryCount c = of_nat G)"
proof (induction xs arbitrary: s)
  case Nil
  then show ?case by simp
next
  case (Cons t xs)
  show ?case
  proof (cases "growth t")
    case None
    with Cons show ?thesis by (simp add: CommitResource_def)
  next
    case (Some g)
    obtain b e h where g: "g = (b, e, h)" by (cases g)
    with Some Cons.prems have be: "b = length (usage s)" "e = length (usage s) + G"
      and ch: "chunked G (length (usage s) + G) xs" by simp_all
    have "usage (Allocate h b e s) = usage s @ replicate G False"
      using be by (simp add: usage_Allocate)
    then have "chunked G (length (usage (Allocate h b e s))) xs" using ch by simp
    from Cons.IH [OF this] obtain cs where
      "pools (pool_after xs (Allocate h b e s)) = pools (Allocate h b e s) @ cs"
      "map handle cs = new_handles xs" "\<forall>c\<in>set cs. queryCount c = of_nat G" by blast
    then show ?thesis using Some g be
      by (simp add: CommitResource_def pools_Allocate)
  qed
qed

lemma Commit_step:
  assumes c: "Commit G ts s = Inr (q, s', ts')"
    and ch: "chunked G (length (usage s)) ts"
  shows "\<exists>i cs. 0 < G \<and> i < length (usage s') \<and> usage s' ! i \<and> i div G < length (pools s')
        \<and> q = slot_of G s' i
        \<and> (i < length (usage s) \<longrightarrow> \<not> usage s ! i)
        \<and> (\<exists>n. usage s' = (usage s @ replicate n False)[i := True])
        \<and> pools s' = pools s @ cs \<and> type s' = type s
        \<and> chunked G (length (usage s')) ts'
        \<and> map handle (pools s') @ new_handles ts' = map handle (pools s) @ new_handles ts
        \<and> (\<forall>c\<in>set cs. queryCount c = of_nat G)
        \<and> length (usage s') = length (usage s) + G * length cs"
proof -
  from Commit_details [OF c] obtain k s1 where k: "k < length ts"
    "s1 = pool_after (take (Suc k) ts) s" "ts' = drop (Suc k) ts"
    "issued (ts ! k) < length (usage s1)" "\<not> usage s1 ! issued (ts ! k)"
    "s' = s1\<lparr>usage := (usage s1)[issued (ts ! k) := True]\<rparr>"
    "0 < G" "issued (ts ! k) div G < length (pools s1)"
    "q = (handle (pools s1 ! (issued (ts ! k) div G)), of_nat (issued (ts ! k) mod G))"
    by blast
  let ?i = "issued (ts ! k)" and ?xs = "take (Suc k) ts"
  have split: "?xs @ ts' = ts" by (simp add: k(3))
  have "chunked G (length (usage s)) (?xs @ ts')" using ch split by simp
  then have ch1: "chunked G (length (usage s)) ?xs"
    and ch2: "chunked G (length (usage s) + G * length (new_handles ?xs)) ts'"
    by (simp_all only: chunked_append)
  have u: "usage s1 = usage s @ replicate (G * length (new_handles ?xs)) False"
    unfolding k(2) using ch1 by (rule usage_pool_after)
  obtain cs where cs: "pools s1 = pools s @ cs" "map handle cs = new_handles ?xs"
    "\<forall>c\<in>set cs. queryCount c = of_nat G"
    unfolding k(2) using pools_pool_after_chunked [OF ch1] by blast
  have len: "length cs = length (new_handles ?xs)" using cs(2) by (metis length_map)
  have "new_handles ?xs @ new_handles ts' = new_handles ts"
    using split new_handles_append [of ?xs ts'] by simp
  then have h: "map handle (pools s') @ new_handles ts' = map handle (pools s) @ new_handles ts"
    by (simp add: k(6) cs)
  have free: "?i < length (usage s) \<longrightarrow> \<not> usage s ! ?i"
    using k(5) by (auto simp: u nth_append)
  have "0 < G \<and> ?i < length (usage s') \<and> usage s' ! ?i \<and> ?i div G < length (pools s')
        \<and> q = slot_of G s' ?i
        \<and> (?i < length (usage s) \<longrightarrow> \<not> usage s ! ?i)
        \<and> (\<exists>n. usage s' = (usage s @ replicate n False)[?i := True])
        \<and> pools s' = pools s @ cs \<and> type s' = type s
        \<and> chunked G (length (usage s')) ts'
        \<and> map handle (pools s') @ new_handles ts' = map handle (pools s) @ new_handles ts
        \<and> (\<forall>c\<in>set cs. queryCount c = of_nat G)
        \<and> length (usage s') = length (usage s) + G * length cs"
    using k(4,7,8,9) free h ch2 cs(1,3) u len
    by (auto simp: k(6) slot_of_def k(2) type_pool_after)
  then show ?thesis by blast
qed


text \<open>Calls of \<open>Commit\<close> in a row: every slot handed out is a used-bit of the pool.\<close>

lemma Commits_Suc_Inr:
  "Commits G (Suc n) ts s = Inr (qs, s', ts') \<Longrightarrow>
     \<exists>qs1 s1 ts1 q. Commits G n ts s = Inr (qs1, s1, ts1) \<and> Commit G ts1 s1 = Inr (q, s', ts')
        \<and> qs = qs1 @ [q]"
  by (auto split: sum.splits)

lemma Commits_committed:
  assumes "Commits G n ts s = Inr (qs, s', ts')"
    and "G \<le> 2 ^ 32"
    and "chunked G (length (usage s)) ts"
    and "distinct (map handle (pools s) @ new_handles ts)"
  shows "distinct qs
    \<and> (\<forall>q\<in>set qs. \<exists>i<length (usage s'). usage s' ! i \<and> i div G < length (pools s')
           \<and> q = slot_of G s' i)
    \<and> chunked G (length (usage s')) ts'
    \<and> map handle (pools s') @ new_handles ts' = map handle (pools s) @ new_handles ts"
  using assms(1)
proof (induction n arbitrary: qs s' ts')
  case 0
  then show ?case using assms(3) by simp
next
  case (Suc n)
  from Commits_Suc_Inr [OF Suc.prems] obtain qs1 s1 ts1 q where
    n: "Commits G n ts s = Inr (qs1, s1, ts1)" and c: "Commit G ts1 s1 = Inr (q, s', ts')"
    and qs: "qs = qs1 @ [q]" by blast
  from Suc.IH [OF n] have d1: "distinct qs1"
    and old: "\<forall>q\<in>set qs1. \<exists>i<length (usage s1). usage s1 ! i \<and> i div G < length (pools s1)
           \<and> q = slot_of G s1 i"
    and ch1: "chunked G (length (usage s1)) ts1"
    and h1: "map handle (pools s1) @ new_handles ts1 = map handle (pools s) @ new_handles ts"
    by simp_all
  from Commit_step [OF c ch1] obtain i cs m where i: "0 < G" "i < length (usage s')"
    "usage s' ! i" "i div G < length (pools s')" "q = slot_of G s' i"
    "i < length (usage s1) \<longrightarrow> \<not> usage s1 ! i"
    "usage s' = (usage s1 @ replicate m False)[i := True]"
    "pools s' = pools s1 @ cs"
    "chunked G (length (usage s')) ts'"
    "map handle (pools s') @ new_handles ts' = map handle (pools s1) @ new_handles ts1"
    by blast
  have dh: "distinct (map handle (pools s'))"
    using assms(4) h1 i(10) by (metis distinct_append)
  have keep: "\<exists>j<length (usage s'). usage s' ! j \<and> j div G < length (pools s')
           \<and> q' = slot_of G s' j \<and> j \<noteq> i" if "q' \<in> set qs1" for q'
  proof -
    from old that obtain j where j: "j < length (usage s1)" "usage s1 ! j"
      "j div G < length (pools s1)" "q' = slot_of G s1 j" by blast
    have ne: "j \<noteq> i" using j(1,2) i(6) by blast
    have "usage s' ! j" using j(1,2) ne by (simp add: i(7) nth_append)
    moreover have "j < length (usage s')" using j(1) by (simp add: i(7))
    moreover have "slot_of G s' j = slot_of G s1 j"
      using j(3) by (simp add: slot_of_def i(8) nth_append)
    ultimately show ?thesis using j(3,4) ne by (auto simp: i(8))
  qed
  have "q \<notin> set qs1"
  proof
    assume "q \<in> set qs1"
    from keep [OF this] obtain j where j: "j div G < length (pools s')"
      "q = slot_of G s' j" "j \<noteq> i" by blast
    have "slot_of G s' i = slot_of G s' j" using i(5) j(2) by simp
    with dh i(1) assms(2) i(4) j(1) have "i = j" by (rule slot_of_inj)
    with j(3) show False by simp
  qed
  then have "distinct qs" using d1 qs by simp
  moreover have "\<forall>q\<in>set qs. \<exists>i<length (usage s'). usage s' ! i \<and> i div G < length (pools s')
           \<and> q = slot_of G s' i"
    using keep i(2-5) qs by auto
  ultimately show ?case using i(9,10) h1 by simp
qed

text \<open>An example run.\<close>

lemma Commits_example:
  "Commits 2 3 growing_tickets (QueryPool_init SamplesPassed) =
     Inr ([(10, 0), (10, 1), (11, 0)],
          \<lparr>usage = [True, True, True, False],
           pools = [\<lparr>handle = 10, queryType = VK_QUERY_TYPE_OCCLUSION, queryCount = 2\<rparr>,
                    \<lparr>handle = 11, queryType = VK_QUERY_TYPE_OCCLUSION, queryCount = 2\<rparr>],
           type = SamplesPassed\<rparr>, [])"
  by (simp add: eval_nat_numeral Commit_def CommitResource_def Allocate_def resize_def
      growing_tickets_def QueryPool_init_def)

text \<open>
  Claim C2. The slots returned by any number of calls of \<open>Commit\<close> in a row, with no
  \<open>Reserve\<close> between them, are pairwise distinct. The pool may start in any state. The
  collaborators are as the spec describes them: the ticket pool grows in chunks of the
  growth step, and the device gives every container a handle of its own; the growth
  step fits the 32-bit offset of a slot.
\<close>

theorem Commits_distinct:
  assumes "Commits G n ts s = Inr (qs, s', ts')"
    and "G \<le> 2 ^ 32"
    and "chunked G (length (usage s)) ts"
    and "distinct (map handle (pools s) @ new_handles ts)"
  shows "distinct qs"
  using Commits_committed [OF assms] by simp

theorem Commits_distinct_witness:
  "Commits 2 3 growing_tickets (QueryPool_init SamplesPassed) =
     Inr ([(10, 0), (10, 1), (11, 0)],
          \<lparr>usage = [True, True, True, False],
           pools = [\<lparr>handle = 10, queryType = VK_QUERY_TYPE_OCCLUSION, queryCount = 2\<rparr>,
                    \<lparr>handle = 11, queryType = VK_QUERY_TYPE_OCCLUSION, queryCount = 2\<rparr>],
           type = SamplesPassed\<rparr>, [])
   \<and> chunked 2 (length (usage (QueryPool_init SamplesPassed))) growing_tickets
   \<and> distinct (map handle (pools (QueryPool_init SamplesPassed)) @ new_handles growing_tickets)
   \<and> distinct [(10, 0), (10, 1), (11, 0) :: slot]"
proof -
  have c: "chunked 2 (length (usage (QueryPool_init SamplesPassed))) growing_tickets"
    by (simp add: growing_tickets_def QueryPool_init_def)
  have d: "distinct (map handle (pools (QueryPool_init SamplesPassed)) @ new_handles growing_tickets)"
    by (simp add: growing_tickets_def QueryPool_init_def)
  have g: "(2 :: nat) \<le> 2 ^ 32" by simp
  from Commits_distinct [OF Commits_example g c d] Commits_example c d show ?thesis by blast
qed

subsection \<open>The invariant of the pool\<close>

lemma sum_list_const: "\<forall>x\<in>set xs. f x = (c::nat) \<Longrightarrow> sum_list (map f xs) = c * length xs"
  by (induction xs) simp_all

lemma invariant_length: "invariant G s \<Longrightarrow> length (usage s) = G * length (pools s)"
  by (simp add: invariant_def capacity_def sum_list_const)

lemma unat_of_nat_u32: "n < 2 ^ 32 \<Longrightarrow> unat (of_nat n :: u32) = n"
  by (simp add: unat_of_nat)

text \<open>Growth at the end of the bit sequence.\<close>

lemma Allocate_at_end:
  assumes "b = length (usage s)" "b \<le> e"
  shows "usage (Allocate h b e s) = usage s @ replicate (e - b) False"
    and "length (usage (Allocate h b e s)) = e"
    and "pools (Allocate h b e s) =
       pools s @ [\<lparr>handle = h, queryType = GetTarget (type s), queryCount = of_nat (e - b)\<rparr>]"
  using assms by (simp_all add: Allocate_def resize_def)

lemma capacity_Allocate:
  assumes "b \<le> e" "e - b < 2 ^ 32"
  shows "capacity (Allocate h b e s) = capacity s + (e - b)"
proof -
  have "unat (of_nat e - of_nat b :: u32) = unat (of_nat (e - b) :: u32)"
    using assms(1) by simp
  also have "\<dots> = e - b" using assms(2) by (rule unat_of_nat_u32)
  finally show ?thesis by (simp add: capacity_def pools_Allocate)
qed

lemma Allocate_capacity_inv:
  assumes "b = length (usage s)" "b \<le> e" "e - b < 2 ^ 32" "length (usage s) = capacity s"
  shows "length (usage (Allocate h b e s)) = capacity (Allocate h b e s)"
  using assms by (simp add: capacity_Allocate Allocate_at_end(2))

lemma Allocate_invariant:
  assumes "b = length (usage s)" "e = b + G" "G < 2 ^ 32" "invariant G s"
  shows "invariant G (Allocate h b e s)"
proof -
  have "length (usage (Allocate h b e s)) = capacity (Allocate h b e s)"
    using assms by (intro Allocate_capacity_inv) (simp_all add: invariant_def)
  moreover have "unat (of_nat e - of_nat b :: u32) = G"
    using assms(2,3) by (simp add: unat_of_nat_u32)
  ultimately show ?thesis using assms(4) by (simp add: invariant_def pools_Allocate)
qed

text \<open>The invariant holds at first and every operation keeps it.\<close>

lemma init_invariant: "invariant G (QueryPool_init ty)"
  by (simp add: invariant_def capacity_def QueryPool_init_def)

lemma Reserve_Inr:
  "Reserve G q s = Inr s' \<Longrightarrow> \<exists>i<length (usage s). s' = s\<lparr>usage := (usage s)[i := False]\<rparr>"
proof -
  assume r: "Reserve G q s = Inr s'"
  let ?i = "find_if (\<lambda>pool. fst q = handle pool) (pools s) * G + unat (snd q)"
  from r have "?i < length (usage s)" "s' = s\<lparr>usage := (usage s)[?i := False]\<rparr>"
    by (auto simp: Reserve_def Let_def split: if_splits)
  then show ?thesis by blast
qed

lemma Reserve_invariant:
  assumes "invariant G s" "Reserve G q s = Inr s'"
  shows "invariant G s'"
  using Reserve_Inr [OF assms(2)] assms(1) by (auto simp: invariant_def capacity_def)

lemma Commit_invariant:
  assumes inv: "invariant G s" and g: "G < 2 ^ 32" and ch: "chunked G (length (usage s)) ts"
    and c: "Commit G ts s = Inr (q, s', ts')"
  shows "invariant G s'"
proof -
  from Commit_step [OF c ch] obtain cs where cs: "pools s' = pools s @ cs"
    "\<forall>c\<in>set cs. queryCount c = of_nat G"
    "length (usage s') = length (usage s) + G * length cs" by blast
  have u: "\<forall>c\<in>set cs. unat (queryCount c) = G"
    using cs(2) g by (simp add: unat_of_nat_u32)
  then have "sum_list (map (\<lambda>p. unat (queryCount p)) cs) = G * length cs"
    by (rule sum_list_const)
  then have "capacity s' = capacity s + G * length cs"
    by (simp add: capacity_def cs(1))
  then show ?thesis using inv u cs(1,3) by (auto simp: invariant_def)
qed

text \<open>Under the invariant, \<open>Commit\<close> and \<open>Reserve\<close> agree on the slot of a flat index.\<close>

lemma index_mapping:
  assumes inv: "invariant G s" and g: "0 < G" and i: "i < length (usage s)"
  shows "i div G < length (pools s)"
    and "i mod G < unat (queryCount (pools s ! (i div G)))"
    and "(i div G) * G + i mod G = i"
    and "distinct (map handle (pools s)) \<Longrightarrow>
           Reserve G (slot_of G s i) s = Inr (s\<lparr>usage := (usage s)[i := False]\<rparr>)"
proof -
  have "i < length (pools s) * G" using invariant_length [OF inv] i by (simp add: mult.commute)
  then show k: "i div G < length (pools s)" by (rule less_mult_imp_div_less)
  then have "pools s ! (i div G) \<in> set (pools s)" by simp
  then have c: "unat (queryCount (pools s ! (i div G))) = G" using inv by (simp add: invariant_def)
  then show "i mod G < unat (queryCount (pools s ! (i div G)))" using g by simp
  show m: "(i div G) * G + i mod G = i" by simp
  assume d: "distinct (map handle (pools s))"
  have "find_if (\<lambda>pool. handle (pools s ! (i div G)) = handle pool) (pools s) = i div G"
    using d k by (rule find_if_distinct)
  then have f: "find_if (\<lambda>pool. fst (slot_of G s i) = handle pool) (pools s) = i div G"
    by (simp add: slot_of_def)
  have "unat (queryCount (pools s ! (i div G))) < 2 ^ 32"
    using unsigned_less [of "queryCount (pools s ! (i div G))", where 'a = nat] by simp
  then have "G < 2 ^ 32" using c by simp
  then have "i mod G < 2 ^ 32" using mod_less_divisor [OF g, of i] by linarith
  then have "unat (snd (slot_of G s i)) = i mod G" by (simp add: slot_of_def unat_of_nat_u32)
  then show "Reserve G (slot_of G s i) s = Inr (s\<lparr>usage := (usage s)[i := False]\<rparr>)"
    using Reserve_at [OF f k, of G] i m by simp
qed

text \<open>
  Claim C8. A growth call \<open>Allocate(begin, end)\<close> at the end of the bit sequence
  makes the sequence \<open>end\<close> bits long by appending free bits, and appends exactly one
  container, of capacity \<open>end - begin\<close>. So it keeps the length of the bit sequence
  equal to the sum of the capacities, and with chunks of the growth step it keeps the
  invariant of the pool. The invariant holds for the new pool and is kept by \<open>Reserve\<close>
  and by \<open>Commit\<close>. Under the invariant, the flat index \<open>i\<close> of a bit is offset
  \<open>i % G\<close> of container \<open>i / G\<close>, which exists, and \<open>Reserve\<close> of that slot clears
  bit \<open>i\<close>.
\<close>

theorem pool_invariant:
  "(b = length (usage s) \<and> b \<le> e \<longrightarrow>
       usage (Allocate h b e s) = usage s @ replicate (e - b) False
     \<and> length (usage (Allocate h b e s)) = e
     \<and> pools (Allocate h b e s) =
         pools s @ [\<lparr>handle = h, queryType = GetTarget (type s), queryCount = of_nat (e - b)\<rparr>]
     \<and> (e - b < 2 ^ 32 \<and> length (usage s) = capacity s \<longrightarrow>
          length (usage (Allocate h b e s)) = capacity (Allocate h b e s))
     \<and> (e = b + G \<and> G < 2 ^ 32 \<and> invariant G s \<longrightarrow> invariant G (Allocate h b e s)))
   \<and> invariant G (QueryPool_init ty)
   \<and> (invariant G s \<and> Reserve G q s = Inr s' \<longrightarrow> invariant G s')
   \<and> (invariant G s \<and> G < 2 ^ 32 \<and> chunked G (length (usage s)) ts
        \<and> Commit G ts s = Inr (q, s', ts') \<longrightarrow> invariant G s')
   \<and> (invariant G s \<and> 0 < G \<and> i < length (usage s) \<longrightarrow>
        i div G < length (pools s)
      \<and> i mod G < unat (queryCount (pools s ! (i div G)))
      \<and> (i div G) * G + i mod G = i
      \<and> (distinct (map handle (pools s)) \<longrightarrow>
           Reserve G (slot_of G s i) s = Inr (s\<lparr>usage := (usage s)[i := False]\<rparr>)))"
proof -
  have A: "b = length (usage s) \<and> b \<le> e \<longrightarrow>
       usage (Allocate h b e s) = usage s @ replicate (e - b) False
     \<and> length (usage (Allocate h b e s)) = e
     \<and> pools (Allocate h b e s) =
         pools s @ [\<lparr>handle = h, queryType = GetTarget (type s), queryCount = of_nat (e - b)\<rparr>]
     \<and> (e - b < 2 ^ 32 \<and> length (usage s) = capacity s \<longrightarrow>
          length (usage (Allocate h b e s)) = capacity (Allocate h b e s))
     \<and> (e = b + G \<and> G < 2 ^ 32 \<and> invariant G s \<longrightarrow> invariant G (Allocate h b e s))"
    using Allocate_at_end [of b s e h] Allocate_capacity_inv [of b s e h]
      Allocate_invariant [of b s e G h] by blast
  have B: "invariant G (QueryPool_init ty)" by (rule init_invariant)
  have C: "invariant G s \<and> Reserve G q s = Inr s' \<longrightarrow> invariant G s'"
    using Reserve_invariant [of G s q s'] by blast
  have D: "invariant G s \<and> G < 2 ^ 32 \<and> chunked G (length (usage s)) ts
        \<and> Commit G ts s = Inr (q, s', ts') \<longrightarrow> invariant G s'"
    using Commit_invariant [of G s ts q s' ts'] by blast
  have E: "invariant G s \<and> 0 < G \<and> i < length (usage s) \<longrightarrow>
        i div G < length (pools s)
      \<and> i mod G < unat (queryCount (pools s ! (i div G)))
      \<and> (i div G) * G + i mod G = i
      \<and> (distinct (map handle (pools s)) \<longrightarrow>
           Reserve G (slot_of G s i) s = Inr (s\<lparr>usage := (usage s)[i := False]\<rparr>))"
    using index_mapping [of G s i] by blast
  show ?thesis by (intro conjI A B C D E)
qed

theorem pool_invariant_witness:
  "invariant 2 example_pool
   \<and> Reserve 2 (11, 0) example_pool = Inr (example_pool\<lparr>usage := [True, False, False, False]\<rparr>)
   \<and> invariant 2 (example_pool\<lparr>usage := [True, False, False, False]\<rparr>)
   \<and> Commit 2 example_tickets example_pool
     = Inr ((11, 1), example_pool\<lparr>usage := [True, False, True, True]\<rparr>, [])
   \<and> invariant 2 (example_pool\<lparr>usage := [True, False, True, True]\<rparr>)
   \<and> invariant 2 (Allocate 12 4 6 example_pool)
   \<and> length (usage (Allocate 12 4 6 example_pool)) = 6
   \<and> slot_of 2 example_pool 3 = (11, 1)"
  using pool_invariant [of 4 example_pool 6 12 2 SamplesPassed "(11, 0)"
      "example_pool\<lparr>usage := [True, False, False, False]\<rparr>" example_tickets "[]" 3]
  by (simp add: invariant_def capacity_def example_pool_def example_tickets_def Reserve_def
      Commit_def CommitResource_def Allocate_def resize_def slot_of_def)

subsection \<open>The commit loop ends\<close>

text \<open>The bits that \<open>Allocate\<close> adds to the bit sequence are free.\<close>

lemma Allocate_new_bits_free:
  assumes "length (usage s) \<le> i" "i < e"
  shows "\<not> usage (Allocate h b e s) ! i"
proof -
  have "length (usage s) \<le> e" using assms by simp
  then have "usage (Allocate h b e s) = usage s @ replicate (e - length (usage s)) False"
    by (rule usage_Allocate)
  then show ?thesis using assms by (simp add: nth_append)
qed

text \<open>
  As long as the ticket pool can issue an index it has not visited, fewer indices have
  been visited than there are.
\<close>

lemma unvisited_left:
  assumes "distinct vs" "set vs \<subseteq> {..<cap}" "v < cap" "v \<notin> set vs"
  shows "length vs < cap"
proof -
  have "set vs \<subseteq> {..<cap} - {v}" using assms(2,4) by blast
  then have "card (set vs) \<le> card ({..<cap} - {v})" by (intro card_mono) simp_all
  also have "\<dots> = cap - 1" using assms(3) by simp
  finally show ?thesis using assms(1,3) by (simp add: distinct_card)
qed

text \<open>
  The loop ends within as many rounds as there are unvisited indices, plus one: at a
  free index, or at the growth, whose new bits are free.
\<close>

lemma Commit_loop_orderly:
  assumes "orderly G (length (usage s)) vs ts" "distinct vs" "set vs \<subseteq> {..<length (usage s)}"
    and "length (usage s) - length vs < length ts"
  shows "\<exists>i s1 ts'. Commit_loop ts s = Inr (i, s1, ts')
           \<and> length ts \<le> length ts' + (length (usage s) - length vs) + 1
           \<and> (s1 = s \<or> (\<exists>h. s1 = Allocate h (length (usage s)) (length (usage s) + G) s))"
  using assms
proof (induction ts arbitrary: vs)
  case Nil
  then show ?case by simp
next
  case (Cons t ts)
  let ?cap = "length (usage s)"
  show ?case
  proof (cases "growth t")
    case (Some g)
    obtain b e h where g: "g = (b, e, h)" by (cases g)
    with Some Cons.prems(1) have be: "b = ?cap" "e = ?cap + G"
      and it: "?cap \<le> issued t" "issued t < ?cap + G" by simp_all
    have s': "snd (CommitResource t s) = Allocate h ?cap (?cap + G) s"
      using Some g be by (simp add: CommitResource_def)
    have free: "\<not> usage (Allocate h ?cap (?cap + G) s) ! issued t"
      using it by (intro Allocate_new_bits_free) simp_all
    have "length (usage (Allocate h ?cap (?cap + G) s)) = ?cap + G"
      by (simp add: usage_Allocate)
    with it free have "Commit_loop (t # ts) s = Inr (issued t, Allocate h ?cap (?cap + G) s, ts)"
      by (simp only: Commit_loop_Cons s') simp
    then show ?thesis by auto
  next
    case None
    with Cons.prems(1) have it: "issued t < ?cap" "issued t \<notin> set vs"
      and o: "orderly G ?cap (issued t # vs) ts" by simp_all
    have s': "snd (CommitResource t s) = s" using None by (simp add: CommitResource_def)
    show ?thesis
    proof (cases "usage s ! issued t")
      case False
      with it have "Commit_loop (t # ts) s = Inr (issued t, s, ts)"
        by (simp only: Commit_loop_Cons s') simp
      then show ?thesis by auto
    next
      case True
      with it have step: "Commit_loop (t # ts) s = Commit_loop ts s"
        by (simp only: Commit_loop_Cons s') simp
      have lt: "length vs < ?cap"
        using Cons.prems(2,3) it by (rule unvisited_left)
      have "distinct (issued t # vs)" "set (issued t # vs) \<subseteq> {..<?cap}"
        using Cons.prems(2,3) it by simp_all
      moreover have "?cap - length (issued t # vs) < length ts"
        using Cons.prems(4) lt by simp
      ultimately obtain i s1 ts' where r: "Commit_loop ts s = Inr (i, s1, ts')"
        "length ts \<le> length ts' + (?cap - length (issued t # vs)) + 1"
        "s1 = s \<or> (\<exists>h. s1 = Allocate h ?cap (?cap + G) s)"
        using Cons.IH [OF o] by blast
      have "length (t # ts) \<le> length ts' + (?cap - length vs) + 1"
        using r(2) lt by simp
      then show ?thesis using r(1,3) step by auto
    qed
  qed
qed

lemma Commit_orderly:
  assumes o: "orderly G (length (usage s)) [] ts" and l: "length (usage s) < length ts"
    and inv: "invariant G s" and g: "G < 2 ^ 32"
  shows "\<exists>q s' ts'. Commit G ts s = Inr (q, s', ts')"
proof -
  from Commit_loop_orderly [OF o] l obtain i s1 ts' where r: "Commit_loop ts s = Inr (i, s1, ts')"
    "s1 = s \<or> (\<exists>h. s1 = Allocate h (length (usage s)) (length (usage s) + G) s)"
    by auto
  have inv1: "invariant G s1"
    using r(2) inv g Allocate_invariant [of "length (usage s)" s "length (usage s) + G" G] by auto
  have i: "i < length (usage s1)" using Commit_loop_Inr [OF r(1)] by blast
  have "G \<noteq> 0"
  proof
    assume "G = 0"
    then have "length (usage s1) = 0" using invariant_length [OF inv1] by simp
    with i show False by simp
  qed
  then have "i div G < length (pools s1)" using index_mapping(1) [OF inv1 _ i] by simp
  then show ?thesis using r(1) \<open>G \<noteq> 0\<close> by (simp add: Commit_def)
qed

text \<open>
  An orderly ticket pool grows whenever every existing index has been visited; and a
  ticket pool that does so is orderly as soon as it visits no existing index twice in
  the call.
\<close>

lemma orderly_visits_then_grows:
  "orderly G cap vs ts \<Longrightarrow> visits_then_grows G cap vs ts"
proof (induction ts arbitrary: vs)
  case Nil
  show ?case by simp
next
  case (Cons t ts)
  show ?case
  proof (cases "growth t")
    case None
    with Cons.prems have it: "issued t < cap" "issued t \<notin> set vs"
      and o: "orderly G cap (issued t # vs) ts" by simp_all
    have "\<not> {..<cap} \<subseteq> set vs" using it by auto
    then show ?thesis using None it(1) Cons.IH [OF o] by simp
  next
    case (Some g)
    with Cons.prems show ?thesis by (cases g) simp
  qed
qed

lemma visits_then_grows_orderly:
  assumes "visits_then_grows G cap vs ts" "distinct (visited ts)" "set (visited ts) \<inter> set vs = {}"
  shows "orderly G cap vs ts"
  using assms
proof (induction ts arbitrary: vs)
  case Nil
  show ?case by simp
next
  case (Cons t ts)
  show ?case
  proof (cases "growth t")
    case None
    then have v: "visited (t # ts) = issued t # visited ts" by (simp add: visited_def)
    from Cons.prems(1) None have it: "issued t < cap"
      and vg: "visits_then_grows G cap (issued t # vs) ts" by simp_all
    have d: "distinct (visited ts)" and n: "issued t \<notin> set (visited ts)"
      using Cons.prems(2) v by simp_all
    have fresh: "issued t \<notin> set vs" using Cons.prems(3) v by auto
    have "set (visited ts) \<inter> set (issued t # vs) = {}" using Cons.prems(3) v n by auto
    from Cons.IH [OF vg d this] show ?thesis using None it fresh by simp
  next
    case (Some g)
    with Cons.prems(1) show ?thesis by (cases g) simp
  qed
qed

text \<open>
  Claim C9, as amended. Every bit that \<open>Allocate\<close> adds to the bit sequence is free.
  Therefore the loop of \<open>Commit\<close> ends, in every state of the pool, under the
  precondition that the ticket pool grows by one chunk and issues an index of the new
  chunk whenever every existing index has been visited, and that it visits no existing
  index twice in the call. With answers for one request more than the pool has bits,
  the loop returns, having made at most that many requests; and under the invariant
  of the pool \<open>Commit\<close> returns a slot.
\<close>

theorem Commit_terminates:
  "(\<forall>i. length (usage s) \<le> i \<and> i < e \<longrightarrow> \<not> usage (Allocate h b e s) ! i)
   \<and> (visits_then_grows G (length (usage s)) [] ts \<and> distinct (visited ts)
        \<and> length (usage s) < length ts \<longrightarrow>
        (\<exists>i s1 ts'. Commit_loop ts s = Inr (i, s1, ts')
           \<and> length ts \<le> length ts' + length (usage s) + 1)
      \<and> (invariant G s \<and> G < 2 ^ 32 \<longrightarrow> (\<exists>q s' ts'. Commit G ts s = Inr (q, s', ts'))))"
proof (intro conjI allI impI)
  fix i assume "length (usage s) \<le> i \<and> i < e"
  then show "\<not> usage (Allocate h b e s) ! i" by (intro Allocate_new_bits_free) simp_all
next
  assume a: "visits_then_grows G (length (usage s)) [] ts \<and> distinct (visited ts)
        \<and> length (usage s) < length ts"
  then have "orderly G (length (usage s)) [] ts" by (intro visits_then_grows_orderly) simp_all
  then show "\<exists>i s1 ts'. Commit_loop ts s = Inr (i, s1, ts')
           \<and> length ts \<le> length ts' + length (usage s) + 1"
    using a Commit_loop_orderly [of G s "[]" ts] by auto
next
  assume a: "visits_then_grows G (length (usage s)) [] ts \<and> distinct (visited ts)
        \<and> length (usage s) < length ts"
    and b: "invariant G s \<and> G < 2 ^ 32"
  from a have "orderly G (length (usage s)) [] ts" by (intro visits_then_grows_orderly) simp_all
  then show "\<exists>q s' ts'. Commit G ts s = Inr (q, s', ts')"
    using a b Commit_orderly [of G s ts] by blast
qed

theorem Commit_terminates_witness:
  "visits_then_grows 2 (length (usage full_pool)) [] orderly_tickets
   \<and> distinct (visited orderly_tickets)
   \<and> length (usage full_pool) < length orderly_tickets
   \<and> invariant 2 full_pool
   \<and> Commit 2 orderly_tickets full_pool
     = Inr ((12, 0),
            \<lparr>usage = [True, True, True, True, True, False],
             pools = [\<lparr>handle = 10, queryType = VK_QUERY_TYPE_OCCLUSION, queryCount = 2\<rparr>,
                      \<lparr>handle = 11, queryType = VK_QUERY_TYPE_OCCLUSION, queryCount = 2\<rparr>,
                      \<lparr>handle = 12, queryType = VK_QUERY_TYPE_OCCLUSION, queryCount = 2\<rparr>],
             type = SamplesPassed\<rparr>, [])"
proof -
  have o: "orderly 2 (length (usage full_pool)) [] orderly_tickets"
    by (simp add: full_pool_def example_pool_def orderly_tickets_def)
  then have v: "visits_then_grows 2 (length (usage full_pool)) [] orderly_tickets"
    by (rule orderly_visits_then_grows)
  have d: "distinct (visited orderly_tickets)"
    by (simp add: visited_def orderly_tickets_def)
  have l: "length (usage full_pool) < length orderly_tickets"
    by (simp add: full_pool_def example_pool_def orderly_tickets_def)
  have i: "invariant 2 full_pool"
    by (simp add: invariant_def capacity_def full_pool_def example_pool_def)
  have c: "Commit 2 orderly_tickets full_pool
     = Inr ((12, 0),
            \<lparr>usage = [True, True, True, True, True, False],
             pools = [\<lparr>handle = 10, queryType = VK_QUERY_TYPE_OCCLUSION, queryCount = 2\<rparr>,
                      \<lparr>handle = 11, queryType = VK_QUERY_TYPE_OCCLUSION, queryCount = 2\<rparr>,
                      \<lparr>handle = 12, queryType = VK_QUERY_TYPE_OCCLUSION, queryCount = 2\<rparr>],
             type = SamplesPassed\<rparr>, [])"
    by code_simp
  from Commit_terminates [of full_pool 6 12 4 2 orderly_tickets] v d l i c
  show ?thesis by blast
qed

text \<open>
  Claim C9 as it is stated, with the first half of that precondition alone, fails. In
  a pool of two slots with slot 0 in use and slot 1 free, let the ticket pool issue
  index 0 on every request. Index 1 is never visited, so the ticket pool never has to
  grow and the stated precondition holds for every number of requests; the invariant
  of the pool holds and a free slot exists; and yet the loop has not returned after
  any number of requests.
\<close>

lemma stuck_precondition:
  "set vs \<subseteq> {0} \<Longrightarrow> visits_then_grows 2 2 vs (replicate n stuck_ticket)"
proof (induction n arbitrary: vs)
  case 0
  show ?case by simp
next
  case (Suc n)
  have "(1::nat) \<in> {..<2}" by simp
  moreover have "(1::nat) \<notin> set vs" using Suc.prems by auto
  ultimately have "\<not> {..<2::nat} \<subseteq> set vs" by blast
  moreover have "visits_then_grows 2 2 (0 # vs) (replicate n stuck_ticket)"
    using Suc.prems by (intro Suc.IH) simp
  ultimately show ?case by (simp add: stuck_ticket_def)
qed

lemma stuck_loop: "Commit_loop (replicate n stuck_ticket) stuck_pool = Inl Retrying"
  by (induction n) (simp_all add: CommitResource_def stuck_ticket_def stuck_pool_def)

theorem Commit_terminates_counterexample:
  "invariant 2 stuck_pool
   \<and> \<not> usage stuck_pool ! 1
   \<and> (\<forall>n. visits_then_grows 2 (length (usage stuck_pool)) [] (replicate n stuck_ticket))
   \<and> (\<forall>n. Commit_loop (replicate n stuck_ticket) stuck_pool = Inl Retrying)
   \<and> (\<forall>n. Commit 2 (replicate n stuck_ticket) stuck_pool = Inl Retrying)"
proof -
  have "invariant 2 stuck_pool" by (simp add: invariant_def capacity_def stuck_pool_def)
  moreover have "\<not> usage stuck_pool ! 1" by (simp add: stuck_pool_def)
  moreover have "length (usage stuck_pool) = 2" by (simp add: stuck_pool_def)
  moreover have "\<forall>n. visits_then_grows 2 2 [] (replicate n stuck_ticket)"
    by (simp add: stuck_precondition)
  moreover have "\<forall>n. Commit 2 (replicate n stuck_ticket) stuck_pool = Inl Retrying"
    by (simp add: Commit_def stuck_loop)
  ultimately show ?thesis by (simp add: stuck_loop)
qed


subsection \<open>A commit returns a free slot\<close>

text \<open>
  The slot that \<open>Commit\<close> returns is the slot of no index in use, when the containers
  have handles of their own.
\<close>

lemma Commit_slot_fresh:
  assumes c: "Commit G ts s = Inr (q, s', ts')"
    and inv: "invariant G s" and g: "G < 2 ^ 32"
    and ch: "chunked G (length (usage s)) ts"
    and d: "distinct (map handle (pools s) @ new_handles ts)"
  shows "\<exists>i<length (usage s'). q = slot_of G s' i
      \<and> (i < length (usage s) \<longrightarrow> \<not> usage s ! i)
      \<and> (\<exists>n. usage s' = (usage s @ replicate n False)[i := True])
      \<and> (\<forall>j<length (usage s). usage s ! j \<longrightarrow> slot_of G s j \<noteq> q \<and> usage s' ! j)"
proof -
  from Commit_step [OF c ch] obtain i cs n where i: "0 < G" "i < length (usage s')"
    "i div G < length (pools s')" "q = slot_of G s' i"
    "i < length (usage s) \<longrightarrow> \<not> usage s ! i"
    "usage s' = (usage s @ replicate n False)[i := True]"
    "pools s' = pools s @ cs"
    "map handle (pools s') @ new_handles ts' = map handle (pools s) @ new_handles ts"
    by blast
  have dh: "distinct (map handle (pools s'))" using d i(8) by (metis distinct_append)
  have "slot_of G s j \<noteq> q \<and> usage s' ! j" if j: "j < length (usage s)" "usage s ! j" for j
  proof -
    have ne: "i \<noteq> j" using j i(5) by blast
    have jd: "j div G < length (pools s)" using inv i(1) j(1) by (rule index_mapping(1))
    then have same: "slot_of G s' j = slot_of G s j"
      by (simp add: slot_of_def i(7) nth_append)
    have jd': "j div G < length (pools s')" using jd by (simp add: i(7))
    have "slot_of G s' i \<noteq> slot_of G s' j"
    proof
      assume "slot_of G s' i = slot_of G s' j"
      with dh i(1) have "i = j" using g i(3) jd' by (intro slot_of_inj [of s' G i j]) simp_all
      with ne show False by simp
    qed
    moreover have "usage s' ! j" using j ne by (simp add: i(6) nth_append)
    ultimately show ?thesis using same i(4) by simp
  qed
  then show ?thesis using i(2,4,5,6) by blast
qed

text \<open>
  Claim C1. In every state of the pool that satisfies its invariant, with the
  collaborators as the spec describes them (an orderly ticket pool that grows in
  chunks, a device that gives every container a handle of its own, a growth step that
  fits the 32-bit offset), \<open>Commit\<close> returns: the slot is that of a flat index whose
  used-bit was clear, exactly that bit is set in the pool returned, which keeps every
  bit of the pool at the call and adds free bits only, and the slot differs from the
  slot of every index in use at the call. Whenever \<open>Commit\<close> returns, also under a
  ticket pool that is not orderly, the same holds for the slot; moreover it has requested
  tickets up to some request \<open>k\<close>, every earlier ticket was an index whose used-bit
  was set when it was issued, the index of request \<open>k\<close> had its used-bit clear in the
  pool of that moment, and the slot returned is the handle of container \<open>index / G\<close>
  with offset \<open>index % G\<close>. Right after \<open>Reserve\<close> of a slot (with an offset inside
  its container), \<open>Commit\<close> returns that very slot if the ticket pool issues its
  index.
\<close>

theorem Commit_free_slot:
  "(invariant G s \<and> G < 2 ^ 32 \<and> orderly G (length (usage s)) [] ts
      \<and> length (usage s) < length ts \<and> chunked G (length (usage s)) ts
      \<and> distinct (map handle (pools s) @ new_handles ts) \<longrightarrow>
      (\<exists>q s' ts'. Commit G ts s = Inr (q, s', ts')
         \<and> (\<exists>i<length (usage s'). q = slot_of G s' i
              \<and> (i < length (usage s) \<longrightarrow> \<not> usage s ! i)
              \<and> (\<exists>n. usage s' = (usage s @ replicate n False)[i := True])
              \<and> (\<forall>j<length (usage s). usage s ! j \<longrightarrow> slot_of G s j \<noteq> q \<and> usage s' ! j))))
   \<and> (Commit G ts s = Inr (q, s', ts') \<and> invariant G s \<and> G < 2 ^ 32
        \<and> chunked G (length (usage s)) ts
        \<and> distinct (map handle (pools s) @ new_handles ts) \<longrightarrow>
      (\<exists>i<length (usage s'). q = slot_of G s' i
         \<and> (i < length (usage s) \<longrightarrow> \<not> usage s ! i)
         \<and> (\<exists>n. usage s' = (usage s @ replicate n False)[i := True])
         \<and> (\<forall>j<length (usage s). usage s ! j \<longrightarrow> slot_of G s j \<noteq> q \<and> usage s' ! j)))
   \<and> (Commit G ts s = Inr (q, s', ts') \<longrightarrow>
      (\<exists>k<length ts. \<exists>s1.
           s1 = pool_after (take (Suc k) ts) s \<and> ts' = drop (Suc k) ts
         \<and> (\<forall>j<k. issued (ts ! j) < length (usage (pool_after (take (Suc j) ts) s))
                  \<and> usage (pool_after (take (Suc j) ts) s) ! issued (ts ! j))
         \<and> issued (ts ! k) < length (usage s1) \<and> \<not> usage s1 ! issued (ts ! k)
         \<and> s' = s1\<lparr>usage := (usage s1)[issued (ts ! k) := True]\<rparr>
         \<and> 0 < G \<and> issued (ts ! k) div G < length (pools s1)
         \<and> q = (handle (pools s1 ! (issued (ts ! k) div G)), of_nat (issued (ts ! k) mod G))
         \<and> (chunked G (length (usage s)) ts \<longrightarrow> (\<exists>n. usage s1 = usage s @ replicate n False))))
   \<and> (\<forall>q0 s0 k rest.
         Reserve G q0 s0 = Inr s \<and> k < length (pools s0) \<and> handle (pools s0 ! k) = fst q0
         \<and> (\<forall>j<k. handle (pools s0 ! j) \<noteq> fst q0) \<and> unat (snd q0) < G
         \<and> ts = \<lparr>growth = None, issued = k * G + unat (snd q0)\<rparr> # rest
       \<longrightarrow> Commit G ts s =
             Inr (q0, s\<lparr>usage := (usage s)[k * G + unat (snd q0) := True]\<rparr>, rest))"
proof -
  have T: "invariant G s \<and> G < 2 ^ 32 \<and> orderly G (length (usage s)) [] ts
      \<and> length (usage s) < length ts \<and> chunked G (length (usage s)) ts
      \<and> distinct (map handle (pools s) @ new_handles ts) \<longrightarrow>
      (\<exists>q s' ts'. Commit G ts s = Inr (q, s', ts')
         \<and> (\<exists>i<length (usage s'). q = slot_of G s' i
              \<and> (i < length (usage s) \<longrightarrow> \<not> usage s ! i)
              \<and> (\<exists>n. usage s' = (usage s @ replicate n False)[i := True])
              \<and> (\<forall>j<length (usage s). usage s ! j \<longrightarrow> slot_of G s j \<noteq> q \<and> usage s' ! j)))"
  proof
    assume a: "invariant G s \<and> G < 2 ^ 32 \<and> orderly G (length (usage s)) [] ts
      \<and> length (usage s) < length ts \<and> chunked G (length (usage s)) ts
      \<and> distinct (map handle (pools s) @ new_handles ts)"
    then obtain q0 s0 ts0 where c: "Commit G ts s = Inr (q0, s0, ts0)"
      using Commit_orderly [of G s ts] by blast
    have "\<exists>i<length (usage s0). q0 = slot_of G s0 i
         \<and> (i < length (usage s) \<longrightarrow> \<not> usage s ! i)
         \<and> (\<exists>n. usage s0 = (usage s @ replicate n False)[i := True])
         \<and> (\<forall>j<length (usage s). usage s ! j \<longrightarrow> slot_of G s j \<noteq> q0 \<and> usage s0 ! j)"
      using c a by (intro Commit_slot_fresh [of G ts s q0 s0 ts0]) simp_all
    with c show "\<exists>q s' ts'. Commit G ts s = Inr (q, s', ts')
         \<and> (\<exists>i<length (usage s'). q = slot_of G s' i
              \<and> (i < length (usage s) \<longrightarrow> \<not> usage s ! i)
              \<and> (\<exists>n. usage s' = (usage s @ replicate n False)[i := True])
              \<and> (\<forall>j<length (usage s). usage s ! j \<longrightarrow> slot_of G s j \<noteq> q \<and> usage s' ! j))"
      by (intro exI [of _ q0] exI [of _ s0] exI [of _ ts0] conjI)
  qed
  have F: "Commit G ts s = Inr (q, s', ts') \<and> invariant G s \<and> G < 2 ^ 32
        \<and> chunked G (length (usage s)) ts
        \<and> distinct (map handle (pools s) @ new_handles ts) \<longrightarrow>
      (\<exists>i<length (usage s'). q = slot_of G s' i
         \<and> (i < length (usage s) \<longrightarrow> \<not> usage s ! i)
         \<and> (\<exists>n. usage s' = (usage s @ replicate n False)[i := True])
         \<and> (\<forall>j<length (usage s). usage s ! j \<longrightarrow> slot_of G s j \<noteq> q \<and> usage s' ! j))"
  proof
    assume "Commit G ts s = Inr (q, s', ts') \<and> invariant G s \<and> G < 2 ^ 32
        \<and> chunked G (length (usage s)) ts
        \<and> distinct (map handle (pools s) @ new_handles ts)"
    then show "\<exists>i<length (usage s'). q = slot_of G s' i
         \<and> (i < length (usage s) \<longrightarrow> \<not> usage s ! i)
         \<and> (\<exists>n. usage s' = (usage s @ replicate n False)[i := True])
         \<and> (\<forall>j<length (usage s). usage s ! j \<longrightarrow> slot_of G s j \<noteq> q \<and> usage s' ! j)"
      by (intro Commit_slot_fresh [of G ts s q s' ts']) simp_all
  qed
  have P: "Commit G ts s = Inr (q, s', ts') \<longrightarrow>
      (\<exists>k<length ts. \<exists>s1.
           s1 = pool_after (take (Suc k) ts) s \<and> ts' = drop (Suc k) ts
         \<and> (\<forall>j<k. issued (ts ! j) < length (usage (pool_after (take (Suc j) ts) s))
                  \<and> usage (pool_after (take (Suc j) ts) s) ! issued (ts ! j))
         \<and> issued (ts ! k) < length (usage s1) \<and> \<not> usage s1 ! issued (ts ! k)
         \<and> s' = s1\<lparr>usage := (usage s1)[issued (ts ! k) := True]\<rparr>
         \<and> 0 < G \<and> issued (ts ! k) div G < length (pools s1)
         \<and> q = (handle (pools s1 ! (issued (ts ! k) div G)), of_nat (issued (ts ! k) mod G))
         \<and> (chunked G (length (usage s)) ts \<longrightarrow> (\<exists>n. usage s1 = usage s @ replicate n False)))"
    by (intro impI) (rule Commit_details)
  have R: "\<forall>q0 s0 k rest.
         Reserve G q0 s0 = Inr s \<and> k < length (pools s0) \<and> handle (pools s0 ! k) = fst q0
         \<and> (\<forall>j<k. handle (pools s0 ! j) \<noteq> fst q0) \<and> unat (snd q0) < G
         \<and> ts = \<lparr>growth = None, issued = k * G + unat (snd q0)\<rparr> # rest
       \<longrightarrow> Commit G ts s =
             Inr (q0, s\<lparr>usage := (usage s)[k * G + unat (snd q0) := True]\<rparr>, rest)"
  proof (intro allI impI)
    fix q0 s0 k rest
    assume "Reserve G q0 s0 = Inr s \<and> k < length (pools s0) \<and> handle (pools s0 ! k) = fst q0
         \<and> (\<forall>j<k. handle (pools s0 ! j) \<noteq> fst q0) \<and> unat (snd q0) < G
         \<and> ts = \<lparr>growth = None, issued = k * G + unat (snd q0)\<rparr> # rest"
    then show "Commit G ts s =
             Inr (q0, s\<lparr>usage := (usage s)[k * G + unat (snd q0) := True]\<rparr>, rest)"
      using Commit_after_Reserve [of G q0 s0 s k rest] by blast
  qed
  show ?thesis by (intro conjI T F P R)
qed

theorem Commit_free_slot_witness:
  "invariant 2 full_pool
   \<and> orderly 2 (length (usage full_pool)) [] orderly_tickets
   \<and> length (usage full_pool) < length orderly_tickets
   \<and> chunked 2 (length (usage full_pool)) orderly_tickets
   \<and> distinct (map handle (pools full_pool) @ new_handles orderly_tickets)
   \<and> Commit 2 orderly_tickets full_pool
     = Inr ((12, 0),
            \<lparr>usage = [True, True, True, True, True, False],
             pools = [\<lparr>handle = 10, queryType = VK_QUERY_TYPE_OCCLUSION, queryCount = 2\<rparr>,
                      \<lparr>handle = 11, queryType = VK_QUERY_TYPE_OCCLUSION, queryCount = 2\<rparr>,
                      \<lparr>handle = 12, queryType = VK_QUERY_TYPE_OCCLUSION, queryCount = 2\<rparr>],
             type = SamplesPassed\<rparr>, [])
   \<and> Commit 2 example_tickets example_pool
     = Inr ((11, 1), example_pool\<lparr>usage := [True, False, True, True]\<rparr>, [])
   \<and> Reserve 2 (11, 0) example_pool = Inr (example_pool\<lparr>usage := [True, False, False, False]\<rparr>)
   \<and> Commit 2 [\<lparr>growth = None, issued = 2\<rparr>] (example_pool\<lparr>usage := [True, False, False, False]\<rparr>)
     = Inr ((11, 0), example_pool\<lparr>usage := [True, False, True, False]\<rparr>, [])"
proof -
  have i: "invariant 2 full_pool"
    by (simp add: invariant_def capacity_def full_pool_def example_pool_def)
  have o: "orderly 2 (length (usage full_pool)) [] orderly_tickets"
    by (simp add: full_pool_def example_pool_def orderly_tickets_def)
  have l: "length (usage full_pool) < length orderly_tickets"
    by (simp add: full_pool_def example_pool_def orderly_tickets_def)
  have ch: "chunked 2 (length (usage full_pool)) orderly_tickets"
    by (simp add: full_pool_def example_pool_def orderly_tickets_def)
  have d: "distinct (map handle (pools full_pool) @ new_handles orderly_tickets)"
    by (simp add: full_pool_def example_pool_def orderly_tickets_def)
  have c: "Commit 2 orderly_tickets full_pool
     = Inr ((12, 0),
            \<lparr>usage = [True, True, True, True, True, False],
             pools = [\<lparr>handle = 10, queryType = VK_QUERY_TYPE_OCCLUSION, queryCount = 2\<rparr>,
                      \<lparr>handle = 11, queryType = VK_QUERY_TYPE_OCCLUSION, queryCount = 2\<rparr>,
                      \<lparr>handle = 12, queryType = VK_QUERY_TYPE_OCCLUSION, queryCount = 2\<rparr>],
             type = SamplesPassed\<rparr>, [])"
    by code_simp
  have c2: "Commit 2 example_tickets example_pool
     = Inr ((11, 1), example_pool\<lparr>usage := [True, False, True, True]\<rparr>, [])"
    by code_simp
  have r: "Reserve 2 (11, 0) example_pool
     = Inr (example_pool\<lparr>usage := [True, False, False, False]\<rparr>)"
    by code_simp
  have c3: "Commit 2 [\<lparr>growth = None, issued = 2\<rparr>]
       (example_pool\<lparr>usage := [True, False, False, False]\<rparr>)
     = Inr ((11, 0), example_pool\<lparr>usage := [True, False, True, False]\<rparr>, [])"
    by code_simp
  note t = Commit_free_slot [where G = 2 and s = full_pool and ts = orderly_tickets
      and q = "(12, 0)" and ts' = "[]"
      and s' = "\<lparr>usage = [True, True, True, True, True, False],
             pools = [\<lparr>handle = 10, queryType = VK_QUERY_TYPE_OCCLUSION, queryCount = 2\<rparr>,
                      \<lparr>handle = 11, queryType = VK_QUERY_TYPE_OCCLUSION, queryCount = 2\<rparr>,
                      \<lparr>handle = 12, queryType = VK_QUERY_TYPE_OCCLUSION, queryCount = 2\<rparr>],
             type = SamplesPassed\<rparr>"]
  have g: "(2::nat) < 2 ^ 32" by simp
  from t have "\<exists>q s' ts'. Commit 2 orderly_tickets full_pool = Inr (q, s', ts')"
    using i g o l ch d by blast
  then show ?thesis using i o l ch d c c2 r c3 by blast
qed


subsection \<open>The life of a host counter\<close>

text \<open>
  The slot that \<open>Commit\<close> returned can be released: its container is found and its flat
  index lies inside the bit sequence.
\<close>

lemma Reserve_after_Commit:
  assumes "Commit G ts s = Inr (q, s', ts')"
  shows "\<exists>s''. Reserve G q s' = Inr s''"
proof -
  from Commit_Inr [OF assms] obtain i s1 where c: "Commit_loop ts s = Inr (i, s1, ts')"
    "i div G < length (pools s1)" "s' = s1\<lparr>usage := (usage s1)[i := True]\<rparr>"
    "q = (handle (pools s1 ! (i div G)), of_nat (i mod G))" by blast
  have i: "i < length (usage s')" using Commit_loop_Inr [OF c(1)] by (auto simp: c(3))
  have p: "pools s' = pools s1" by (simp add: c(3))
  have h: "handle (pools s' ! (i div G)) = fst q" by (simp add: c(4) p)
  then have "fst q \<in> handle ` set (pools s')" using c(2) p by (metis imageI nth_mem)
  from Reserve_owned_position [OF this] obtain k where k: "k < length (pools s')"
    "find_if (\<lambda>pool. fst q = handle pool) (pools s') = k"
    "\<forall>j<k. handle (pools s' ! j) \<noteq> fst q" by blast
  have "\<not> i div G < k" using k(3) h by blast
  then have "k * G \<le> (i div G) * G" by simp
  moreover have "unat (snd q) \<le> i mod G" by (simp add: c(4) unat_of_nat)
  ultimately have "k * G + unat (snd q) \<le> (i div G) * G + i mod G" by (rule add_mono)
  then have "k * G + unat (snd q) < length (usage s')" using i by simp
  then show ?thesis using Reserve_at [OF k(2,1), of G] by simp
qed

text \<open>Neither \<open>EndQuery\<close> nor \<open>BlockingQuery\<close> calls \<open>Reserve\<close>.\<close>

lemma use_no_Reserve: "filter is_Reserve (HostCounter_use hc u) = []"
  by (cases u) (simp_all add: HostCounter_EndQuery_def BlockingQuery_def Let_def)

lemma uses_no_Reserve: "filter is_Reserve (concat (map (HostCounter_use hc) uses)) = []"
  by (induction uses) (simp_all add: use_no_Reserve)

text \<open>
  Claim C5. Over the life of a host counter, whatever calls of \<open>EndQuery\<close> and
  \<open>BlockingQuery\<close> were made on it and however they ended, also when there were
  none: the calls to the collaborators contain exactly one call of \<open>Reserve\<close>, it is
  the last call, it is made by the destructor for the query type of the counter and
  for the slot that \<open>AllocateQuery\<close> returned to the constructor, and it succeeds.
\<close>

theorem HostCounter_life_reserve:
  assumes "HostCounter_life G ty current_tick ts uses c = Inr (hc, calls, r)"
  shows "\<exists>q c' ts'. AllocateQuery G ty ts c = Inr (q, c', ts')
      \<and> query hc = q \<and> counter_type hc = ty \<and> tick hc = current_tick
      \<and> filter is_Reserve calls = [Cache_Reserve ty q]
      \<and> last calls = Cache_Reserve ty q
      \<and> r = VKQueryCache_Reserve G ty q c'
      \<and> (\<exists>c''. r = Inr c'')"
proof -
  from assms obtain calls1 c' ts' where n: "HostCounter_new G ty current_tick ts c = Inr (hc, calls1, c', ts')"
    and l: "calls = calls1 @ concat (map (HostCounter_use hc) uses) @ fst (HostCounter_delete G hc c')"
      "r = snd (HostCounter_delete G hc c')"
    by (cases "HostCounter_new G ty current_tick ts c")
      (auto simp: HostCounter_life_def HostCounter_delete_def)
  from n obtain q where a: "AllocateQuery G ty ts c = Inr (q, c', ts')"
    and hc: "hc = \<lparr>counter_type = ty, query = q, tick = current_tick\<rparr>"
    and c1: "calls1 = [Cache_AllocateQuery ty,
         Scheduler_Record [ResetQueryPoolEXT (fst q) (snd q) 1, BeginQuery (fst q) (snd q)]]"
    by (cases "AllocateQuery G ty ts c") (auto simp: HostCounter_new_def)
  from a obtain p where p: "Commit G ts (query_pools c ty) = Inr (q, p, ts')"
    and c': "c' = c\<lparr>query_pools := (query_pools c)(ty := p)\<rparr>"
    by (cases "Commit G ts (query_pools c ty)") (auto simp: AllocateQuery_def)
  from Reserve_after_Commit [OF p] obtain p' where "Reserve G q p = Inr p'" by blast
  then have ok: "\<exists>c''. VKQueryCache_Reserve G ty q c' = Inr c''"
    by (simp add: VKQueryCache_Reserve_def c')
  have "filter is_Reserve calls = [Cache_Reserve ty q]"
    by (simp add: l(1) c1 uses_no_Reserve HostCounter_delete_def hc)
  moreover have "last calls = Cache_Reserve ty q"
    by (simp add: l(1) HostCounter_delete_def hc)
  moreover have "r = VKQueryCache_Reserve G ty q c'"
    by (simp add: l(2) HostCounter_delete_def hc)
  ultimately show ?thesis using a ok by (simp add: hc)
qed

theorem HostCounter_life_reserve_witness:
  "HostCounter_life 2 SamplesPassed 5 example_tickets example_uses example_cache =
     Inr (\<lparr>counter_type = SamplesPassed, query = (11, 1), tick = 5\<rparr>,
          [Cache_AllocateQuery SamplesPassed,
           Scheduler_Record [ResetQueryPoolEXT 11 1 1, BeginQuery 11 1],
           Scheduler_Record [EndQuery 11 1],
           Device_GetQueryResults 11 1, Device_ReportLoss,
           Cache_Reserve SamplesPassed (11, 1)],
          Inr (example_cache\<lparr>query_pools := (query_pools example_cache)
                 (SamplesPassed := example_pool)\<rparr>))
   \<and> filter is_Reserve
         [Cache_AllocateQuery SamplesPassed,
           Scheduler_Record [ResetQueryPoolEXT 11 1 1, BeginQuery 11 1],
           Scheduler_Record [EndQuery 11 1],
           Device_GetQueryResults 11 1, Device_ReportLoss,
           Cache_Reserve SamplesPassed (11, 1)]
       = [Cache_Reserve SamplesPassed (11, 1)]"
proof -
  have c: "Commit 2 example_tickets example_pool
     = Inr ((11, 1), example_pool\<lparr>usage := [True, False, True, True]\<rparr>, [])"
    by code_simp
  have r: "Reserve 2 (11, 1) (example_pool\<lparr>usage := [True, False, True, True]\<rparr>)
     = Inr example_pool"
    by code_simp
  have l: "HostCounter_life 2 SamplesPassed 5 example_tickets example_uses example_cache =
     Inr (\<lparr>counter_type = SamplesPassed, query = (11, 1), tick = 5\<rparr>,
          [Cache_AllocateQuery SamplesPassed,
           Scheduler_Record [ResetQueryPoolEXT 11 1 1, BeginQuery 11 1],
           Scheduler_Record [EndQuery 11 1],
           Device_GetQueryResults 11 1, Device_ReportLoss,
           Cache_Reserve SamplesPassed (11, 1)],
          Inr (example_cache\<lparr>query_pools := (query_pools example_cache)
                 (SamplesPassed := example_pool)\<rparr>))"
    by (simp add: HostCounter_life_def HostCounter_new_def HostCounter_delete_def
        AllocateQuery_def VKQueryCache_Reserve_def example_cache_def c r example_uses_def
        HostCounter_EndQuery_def BlockingQuery_def VK_SUCCESS_def VK_ERROR_DEVICE_LOST_def)
  from HostCounter_life_reserve [OF l] l show ?thesis by simp
qed

subsection \<open>Growth of a new pool\<close>

lemma exhaustive_chunked: "exhaustive G cap vs ts \<Longrightarrow> chunked G cap ts"
  by (induction ts arbitrary: cap vs) (auto split: option.splits)

text \<open>The number of used bits of a bit sequence.\<close>

lemma used_count_update:
  "i < length xs \<Longrightarrow> \<not> xs ! i \<Longrightarrow>
     length (filter id (xs[i := True])) = Suc (length (filter id xs))"
proof (induction xs arbitrary: i)
  case Nil
  then show ?case by simp
next
  case (Cons x xs)
  then show ?case by (cases i) simp_all
qed

lemma used_count_full: "(\<forall>j<length xs. xs ! j) \<Longrightarrow> length (filter id xs) = length xs"
proof -
  assume "\<forall>j<length xs. xs ! j"
  then have "\<forall>x\<in>set xs. id x" by (auto simp: in_set_conv_nth)
  then have "filter id xs = xs" by (simp only: filter_id_conv)
  then show ?thesis by simp
qed

lemma used_count_free: "i < length xs \<Longrightarrow> \<not> xs ! i \<Longrightarrow> length (filter id xs) < length xs"
proof -
  assume i: "i < length xs" and f: "\<not> xs ! i"
  have m: "xs ! i \<in> set xs" using i by (rule nth_mem)
  have "\<not> id (xs ! i)" using f by simp
  with m show ?thesis by (rule length_filter_less)
qed

lemma used_count_all: "length (filter id xs) = length xs \<Longrightarrow> i < length xs \<Longrightarrow> xs ! i"
  using used_count_free [of i xs] by auto

text \<open>
  One call of \<open>Commit\<close> when every index issued so far is in use: either the pool does
  not grow and a free bit was left, or every bit was in use and the pool grows by one
  container, the slot being the first of the new chunk.
\<close>

lemma Commit_loop_exhaustive:
  assumes "exhaustive G (length (usage s)) vs ts"
    and "\<forall>v\<in>set vs. v < length (usage s) \<and> usage s ! v"
    and "Commit_loop ts s = Inr (i, s1, ts')"
  shows "\<exists>vs'. exhaustive G (length (usage s1)) vs' ts'
        \<and> (\<forall>v\<in>set vs'. v < length (usage s1) \<and> (usage s1)[i := True] ! v)
        \<and> i < length (usage s1) \<and> \<not> usage s1 ! i
        \<and> ((s1 = s)
           \<or> ((\<forall>j<length (usage s). usage s ! j) \<and> i = length (usage s)
               \<and> (\<exists>h. s1 = Allocate h (length (usage s)) (length (usage s) + G) s)))"
  using assms
proof (induction ts arbitrary: vs)
  case Nil
  then show ?case by simp
next
  case (Cons t ts)
  let ?cap = "length (usage s)"
  let ?s = "snd (CommitResource t s)"
  from Cons.prems(3) have inr: "issued t < length (usage ?s)"
    by (auto simp only: Commit_loop_Cons split: if_splits)
  show ?case
  proof (cases "growth t")
    case None
    with Cons.prems(1) have ex: "exhaustive G ?cap (issued t # vs) ts" by simp
    have s': "?s = s" using None by (simp add: CommitResource_def)
    show ?thesis
    proof (cases "usage s ! issued t")
      case True
      with Cons.prems(3) inr have r: "Commit_loop ts s = Inr (i, s1, ts')"
        by (simp only: Commit_loop_Cons s' split: if_splits) simp
      have "\<forall>v\<in>set (issued t # vs). v < ?cap \<and> usage s ! v"
        using Cons.prems(2) True inr s' by simp
      from Cons.IH [OF ex this r] show ?thesis .
    next
      case False
      with Cons.prems(3) inr have r: "i = issued t" "s1 = s" "ts' = ts"
        by (simp_all only: Commit_loop_Cons s' split: if_splits) simp_all
      have "\<forall>v\<in>set (issued t # vs). v < ?cap \<and> (usage s)[i := True] ! v"
        using Cons.prems(2) inr s' r(1) by (auto simp: nth_list_update)
      moreover have "i < ?cap" "\<not> usage s ! i" using inr s' False r(1) by simp_all
      ultimately have "exhaustive G (length (usage s1)) (issued t # vs) ts'
        \<and> (\<forall>v\<in>set (issued t # vs). v < length (usage s1) \<and> (usage s1)[i := True] ! v)
        \<and> i < length (usage s1) \<and> \<not> usage s1 ! i
        \<and> ((s1 = s)
           \<or> ((\<forall>j<length (usage s). usage s ! j) \<and> i = length (usage s)
               \<and> (\<exists>h. s1 = Allocate h (length (usage s)) (length (usage s) + G) s)))"
        using ex by (simp add: r(2,3))
      then show ?thesis by (rule exI)
    qed
  next
    case (Some g)
    obtain b e h where g: "g = (b, e, h)" by (cases g)
    from Cons.prems(1) have "b = ?cap \<and> e = ?cap + G \<and> issued t = ?cap
        \<and> {..<?cap} \<subseteq> set vs \<and> exhaustive G (?cap + G) (issued t # vs) ts"
      by (auto simp: Some g)
    then have it: "issued t = ?cap" and all: "{..<?cap} \<subseteq> set vs"
      and ex: "exhaustive G (?cap + G) (issued t # vs) ts"
      and be: "b = ?cap" "e = ?cap + G" by blast+
    have s': "?s = Allocate h ?cap (?cap + G) s"
      using Some g be by (simp add: CommitResource_def)
    have u: "usage ?s = usage s @ replicate G False" by (simp add: s' usage_Allocate)
    have free: "\<not> usage ?s ! issued t" using inr by (simp add: u it nth_append)
    with Cons.prems(3) inr have r: "i = issued t" "s1 = ?s" "ts' = ts"
      by (simp_all only: Commit_loop_Cons split: if_splits) simp_all
    have full: "\<forall>j<?cap. usage s ! j" using all Cons.prems(2) by blast
    have a: "\<forall>v\<in>set (issued t # vs). v < length (usage s1) \<and> (usage s1)[i := True] ! v"
      using Cons.prems(2) inr by (auto simp: r u it nth_list_update nth_append)
    have b: "exhaustive G (length (usage s1)) (issued t # vs) ts'"
      using ex by (simp add: r u)
    have c: "i < length (usage s1)" "\<not> usage s1 ! i" using inr free by (simp_all add: r)
    have d: "i = ?cap" by (simp add: r it)
    have e: "\<exists>h. s1 = Allocate h ?cap (?cap + G) s" using s' r(2) by blast
    have "exhaustive G (length (usage s1)) (issued t # vs) ts'
        \<and> (\<forall>v\<in>set (issued t # vs). v < length (usage s1) \<and> (usage s1)[i := True] ! v)
        \<and> i < length (usage s1) \<and> \<not> usage s1 ! i
        \<and> ((s1 = s)
           \<or> ((\<forall>j<length (usage s). usage s ! j) \<and> i = length (usage s)
               \<and> (\<exists>h. s1 = Allocate h (length (usage s)) (length (usage s) + G) s)))"
      using a b c d e full by (intro conjI disjI2) assumption+
    then show ?thesis by (rule exI)
  qed
qed

lemma Commit_exhaustive:
  assumes ex: "exhaustive G (length (usage s)) vs ts"
    and used: "\<forall>v\<in>set vs. v < length (usage s) \<and> usage s ! v"
    and c: "Commit G ts s = Inr (q, s', ts')"
  shows "\<exists>vs' i. exhaustive G (length (usage s')) vs' ts'
      \<and> (\<forall>v\<in>set vs'. v < length (usage s') \<and> usage s' ! v)
      \<and> 0 < G \<and> q = slot_of G s' i
      \<and> length (filter id (usage s')) = Suc (length (filter id (usage s)))
      \<and> ((pools s' = pools s \<and> length (filter id (usage s)) < length (usage s))
         \<or> (length (filter id (usage s)) = length (usage s) \<and> i = length (usage s)
             \<and> length (pools s') = Suc (length (pools s))))"
proof -
  from Commit_Inr [OF c] obtain i s1 where l: "Commit_loop ts s = Inr (i, s1, ts')"
    "0 < G" "s' = s1\<lparr>usage := (usage s1)[i := True]\<rparr>"
    "q = (handle (pools s1 ! (i div G)), of_nat (i mod G))" by blast
  from Commit_loop_exhaustive [OF ex used l(1)] obtain vs' where
    v: "exhaustive G (length (usage s1)) vs' ts'"
      "\<forall>v\<in>set vs'. v < length (usage s1) \<and> (usage s1)[i := True] ! v"
      "i < length (usage s1)" "\<not> usage s1 ! i"
    and cases: "s1 = s \<or> ((\<forall>j<length (usage s). usage s ! j) \<and> i = length (usage s)
               \<and> (\<exists>h. s1 = Allocate h (length (usage s)) (length (usage s) + G) s))"
    by blast
  have q: "q = slot_of G s' i" by (simp add: l(3,4) slot_of_def)
  have cnt1: "length (filter id (usage s')) = Suc (length (filter id (usage s1)))"
    using v(3,4) by (simp add: l(3) used_count_update)
  have a: "exhaustive G (length (usage s')) vs' ts'" using v(1) by (simp add: l(3))
  have b: "\<forall>v\<in>set vs'. v < length (usage s') \<and> usage s' ! v" using v(2) by (simp add: l(3))
  from cases show ?thesis
  proof
    assume s1: "s1 = s"
    then have "length (filter id (usage s)) < length (usage s)"
      using v(3,4) used_count_free by blast
    moreover have "pools s' = pools s" by (simp add: l(3) s1)
    moreover have "length (filter id (usage s')) = Suc (length (filter id (usage s)))"
      using cnt1 by (simp add: s1)
    ultimately have "exhaustive G (length (usage s')) vs' ts'
      \<and> (\<forall>v\<in>set vs'. v < length (usage s') \<and> usage s' ! v)
      \<and> 0 < G \<and> q = slot_of G s' i
      \<and> length (filter id (usage s')) = Suc (length (filter id (usage s)))
      \<and> ((pools s' = pools s \<and> length (filter id (usage s)) < length (usage s))
         \<or> (length (filter id (usage s)) = length (usage s) \<and> i = length (usage s)
             \<and> length (pools s') = Suc (length (pools s))))"
      using a b l(2) q by (intro conjI disjI1) assumption+
    then show ?thesis by (intro exI)
  next
    assume g: "(\<forall>j<length (usage s). usage s ! j) \<and> i = length (usage s)
               \<and> (\<exists>h. s1 = Allocate h (length (usage s)) (length (usage s) + G) s)"
    then obtain h where s1: "s1 = Allocate h (length (usage s)) (length (usage s) + G) s" by blast
    have "usage s1 = usage s @ replicate G False" by (simp add: s1 usage_Allocate)
    then have "length (filter id (usage s1)) = length (filter id (usage s))" by simp
    then have c1: "length (filter id (usage s')) = Suc (length (filter id (usage s)))"
      using cnt1 by simp
    have c2: "length (filter id (usage s)) = length (usage s)"
      using g by (intro used_count_full) blast
    have c3: "length (pools s') = Suc (length (pools s))"
      by (simp add: l(3) s1 pools_Allocate)
    have c4: "i = length (usage s)" using g by blast
    have "exhaustive G (length (usage s')) vs' ts'
      \<and> (\<forall>v\<in>set vs'. v < length (usage s') \<and> usage s' ! v)
      \<and> 0 < G \<and> q = slot_of G s' i
      \<and> length (filter id (usage s')) = Suc (length (filter id (usage s)))
      \<and> ((pools s' = pools s \<and> length (filter id (usage s)) < length (usage s))
         \<or> (length (filter id (usage s)) = length (usage s) \<and> i = length (usage s)
             \<and> length (pools s') = Suc (length (pools s))))"
      using a b l(2) q c1 c2 c3 c4 by (intro conjI disjI2) assumption+
    then show ?thesis by (intro exI)
  qed
qed


text \<open>
  After \<open>n\<close> commits on a new pool, \<open>n\<close> bits are in use and the pool has just as many
  containers as \<open>n\<close> slots need.
\<close>

lemma Commits_exhaustive:
  assumes ex: "exhaustive G 0 [] ts" and g: "G < 2 ^ 32"
    and c: "Commits G n ts (QueryPool_init ty) = Inr (qs, s, ts1)"
  shows "\<exists>vs. exhaustive G (length (usage s)) vs ts1
      \<and> (\<forall>v\<in>set vs. v < length (usage s) \<and> usage s ! v)
      \<and> length (filter id (usage s)) = n \<and> invariant G s \<and> length qs = n
      \<and> n \<le> G * length (pools s)
      \<and> (0 < length (pools s) \<longrightarrow> G * (length (pools s) - 1) < n)"
  using c
proof (induction n arbitrary: qs s ts1)
  case 0
  then have s: "s = QueryPool_init ty" "ts1 = ts" "qs = []" by simp_all
  have "exhaustive G (length (usage s)) [] ts1
      \<and> (\<forall>v\<in>set []. v < length (usage s) \<and> usage s ! v)
      \<and> length (filter id (usage s)) = 0 \<and> invariant G s \<and> length qs = 0
      \<and> 0 \<le> G * length (pools s)
      \<and> (0 < length (pools s) \<longrightarrow> G * (length (pools s) - 1) < 0)"
    using ex init_invariant [of G ty] by (simp add: s QueryPool_init_def)
  then show ?case by (rule exI)
next
  case (Suc n)
  from Commits_Suc_Inr [OF Suc.prems] obtain qs1 s1 ts' q where
    n: "Commits G n ts (QueryPool_init ty) = Inr (qs1, s1, ts')"
    and c1: "Commit G ts' s1 = Inr (q, s, ts1)" and qs: "qs = qs1 @ [q]" by blast
  from Suc.IH [OF n] obtain vs where ih: "exhaustive G (length (usage s1)) vs ts'"
    "\<forall>v\<in>set vs. v < length (usage s1) \<and> usage s1 ! v"
    "length (filter id (usage s1)) = n" "invariant G s1" "length qs1 = n"
    "n \<le> G * length (pools s1)"
    "0 < length (pools s1) \<longrightarrow> G * (length (pools s1) - 1) < n"
    by blast
  from Commit_exhaustive [OF ih(1,2) c1] obtain vs' i where
    st: "exhaustive G (length (usage s)) vs' ts1"
      "\<forall>v\<in>set vs'. v < length (usage s) \<and> usage s ! v" "0 < G"
      "length (filter id (usage s)) = Suc (length (filter id (usage s1)))"
    and cases: "(pools s = pools s1 \<and> length (filter id (usage s1)) < length (usage s1))
         \<or> (length (filter id (usage s1)) = length (usage s1) \<and> i = length (usage s1)
             \<and> length (pools s) = Suc (length (pools s1)))"
    by blast
  have inv: "invariant G s"
    using ih(4) g exhaustive_chunked [OF ih(1)] c1 by (rule Commit_invariant)
  have len1: "length (usage s1) = G * length (pools s1)" using ih(4) by (rule invariant_length)
  have bounds: "Suc n \<le> G * length (pools s)
      \<and> (0 < length (pools s) \<longrightarrow> G * (length (pools s) - 1) < Suc n)"
    using cases
  proof
    assume a: "pools s = pools s1 \<and> length (filter id (usage s1)) < length (usage s1)"
    then have "n < G * length (pools s1)" using ih(3) len1 by simp
    then show ?thesis using a ih(7) by auto
  next
    assume a: "length (filter id (usage s1)) = length (usage s1) \<and> i = length (usage s1)
             \<and> length (pools s) = Suc (length (pools s1))"
    then have "n = G * length (pools s1)" using ih(3) len1 by simp
    then show ?thesis using a st(3) by simp
  qed
  have "exhaustive G (length (usage s)) vs' ts1
      \<and> (\<forall>v\<in>set vs'. v < length (usage s) \<and> usage s ! v)
      \<and> length (filter id (usage s)) = Suc n \<and> invariant G s \<and> length qs = Suc n
      \<and> Suc n \<le> G * length (pools s)
      \<and> (0 < length (pools s) \<longrightarrow> G * (length (pools s) - 1) < Suc n)"
    using st(1,2,4) ih(3,5) inv bounds qs by simp
  then show ?case by (rule exI)
qed

text \<open>
  Claim C7. On a new pool with growth step \<open>G\<close>, after \<open>G + 1\<close> calls of \<open>Commit\<close> and
  no call of \<open>Reserve\<close>, the pool holds exactly two containers, each created with
  capacity \<open>G\<close>, over \<open>2 * G\<close> bits; and the last of the commits, the one of flat
  index \<open>G\<close>, returned offset 0 of container 1. The ticket pool is as the spec
  describes it: it grows only when every existing index has been issued, by one chunk,
  and then issues the first index of the chunk; it may come back to indices it has
  issued before.
\<close>

theorem Commits_second_container:
  assumes ex: "exhaustive G 0 [] ts" and g: "G < 2 ^ 32"
    and c: "Commits G (Suc G) ts (QueryPool_init ty) = Inr (qs, s', ts')"
  shows "length (pools s') = 2
    \<and> (\<forall>p\<in>set (pools s'). unat (queryCount p) = G)
    \<and> length (usage s') = 2 * G
    \<and> length qs = Suc G
    \<and> qs ! G = slot_of G s' G
    \<and> slot_of G s' G = (handle (pools s' ! 1), 0)"
proof -
  from Commits_Suc_Inr [OF c] obtain qs1 s1 ts1 q where
    n: "Commits G G ts (QueryPool_init ty) = Inr (qs1, s1, ts1)"
    and c1: "Commit G ts1 s1 = Inr (q, s', ts')" and qs: "qs = qs1 @ [q]" by blast
  from Commits_exhaustive [OF ex g n] obtain vs where ih: "exhaustive G (length (usage s1)) vs ts1"
    "\<forall>v\<in>set vs. v < length (usage s1) \<and> usage s1 ! v"
    "length (filter id (usage s1)) = G" "invariant G s1" "length qs1 = G"
    "G \<le> G * length (pools s1)"
    "0 < length (pools s1) \<longrightarrow> G * (length (pools s1) - 1) < G"
    by blast
  from Commit_exhaustive [OF ih(1,2) c1] obtain i where
    st: "0 < G" "q = slot_of G s' i"
    and cases: "(pools s' = pools s1 \<and> length (filter id (usage s1)) < length (usage s1))
         \<or> (length (filter id (usage s1)) = length (usage s1) \<and> i = length (usage s1)
             \<and> length (pools s') = Suc (length (pools s1)))"
    by blast
  have pos: "0 < length (pools s1)" using ih(6) st(1) by (cases "length (pools s1)") simp_all
  then have "G * (length (pools s1) - 1) < G * 1" using ih(7) by simp
  then have "length (pools s1) - 1 < 1" by (simp only: mult_less_cancel1)
  with pos have one: "length (pools s1) = 1" by linarith
  have len1: "length (usage s1) = G" using invariant_length [OF ih(4)] one by simp
  from cases ih(3) len1 have i: "i = G" and two: "length (pools s') = 2"
    using one by auto
  have inv: "invariant G s'"
    using ih(4) g exhaustive_chunked [OF ih(1)] c1 by (rule Commit_invariant)
  have "length (usage s') = 2 * G" using invariant_length [OF inv] two by simp
  moreover have "\<forall>p\<in>set (pools s'). unat (queryCount p) = G" using inv by (simp add: invariant_def)
  moreover have "qs ! G = slot_of G s' G" using qs ih(5) st(2) i by (simp add: nth_append)
  moreover have "slot_of G s' G = (handle (pools s' ! 1), 0)" using st(1) by (simp add: slot_of_def)
  moreover have "length qs = Suc G" using qs ih(5) by simp
  ultimately show ?thesis using two by simp
qed



theorem Commits_second_container_witness:
  "exhaustive 2 0 [] growing_tickets
   \<and> Commits 2 3 growing_tickets (QueryPool_init SamplesPassed) =
     Inr ([(10, 0), (10, 1), (11, 0)],
          \<lparr>usage = [True, True, True, False],
           pools = [\<lparr>handle = 10, queryType = VK_QUERY_TYPE_OCCLUSION, queryCount = 2\<rparr>,
                    \<lparr>handle = 11, queryType = VK_QUERY_TYPE_OCCLUSION, queryCount = 2\<rparr>],
           type = SamplesPassed\<rparr>, [])
   \<and> [(10, 0), (10, 1), (11, 0) :: slot] ! 2 = (11, 0)"
proof -
  have e: "exhaustive 2 0 [] growing_tickets"
    by (simp add: growing_tickets_def lessThan_nat_numeral lessThan_Suc)
  have g: "(2 :: nat) < 2 ^ 32" by simp
  have c: "Commits 2 (Suc 2) growing_tickets (QueryPool_init SamplesPassed) =
     Inr ([(10, 0), (10, 1), (11, 0)],
          \<lparr>usage = [True, True, True, False],
           pools = [\<lparr>handle = 10, queryType = VK_QUERY_TYPE_OCCLUSION, queryCount = 2\<rparr>,
                    \<lparr>handle = 11, queryType = VK_QUERY_TYPE_OCCLUSION, queryCount = 2\<rparr>],
           type = SamplesPassed\<rparr>, [])"
    using Commits_example by (simp only: Suc_numeral) simp
  have n: "[(10, 0), (10, 1), (11, 0) :: slot] ! 2 = (11, 0)" by simp
  from Commits_second_container [OF e g c] e Commits_example n show ?thesis by blast
qed

end
